theory Spec2Isabelle
  imports Main "HOL-Library.Word" "HOL-Library.Sublist"
begin

section \<open>Process-descendant trackers: \<open>track_descendants.c\<close> and \<open>track_kqueue.c\<close>\<close>

text \<open>
  Both programs fork a command and collect the PIDs of its descendants: the first by
  polling (\<open>kill(pid, 0)\<close> and \<open>proc_listchildpids\<close> on a timer), the second from
  kqueue process events. The operating system is modelled as an oracle: every system or
  library call that the code makes takes the number of calls made so far (the \<open>clock\<close>
  of the \<open>world\<close>) and answers from a record of functions, so a theorem that holds for
  every oracle holds for every behaviour of the system, also one that depends on the
  history.
\<close>

subsection \<open>System interface\<close>

text \<open>\<open>pid_t\<close>: a signed 32-bit integer on which the code only compares.\<close>

type_synonym pid = int

datatype errno = ESRCH | EPERM | EINTR | ECHILD | EOTHER nat

text \<open>
  What \<open>proc_listchildpids(pid, buffer, buffersize)\<close> does: its \<open>int\<close> result (read
  signed), \<open>errno\<close> when the result is negative, and the PIDs that it stored at the
  front of the buffer.
\<close>

record proc_reply =
  pr_result :: "32 word"
  pr_errno :: errno
  pr_written :: "pid list"

text \<open>
  One \<open>struct kevent\<close> as the event loop reads it: \<open>ident\<close> cast to \<open>pid_t\<close>,
  \<open>flags & EV_ERROR\<close>, \<open>data\<close> as an error number, \<open>fflags & NOTE_FORK\<close> and
  \<open>fflags & NOTE_EXIT\<close>.
\<close>

record kevent =
  ident :: pid
  ev_error :: bool
  ev_data :: errno
  note_fork :: bool
  note_exit :: bool

text \<open>
  The oracle. The first argument of each function is the clock.
  \<^item> \<open>os_alloc t n\<close>: whether \<open>malloc\<close> or \<open>realloc\<close> of \<open>n\<close> bytes succeeds;
  \<^item> \<open>os_kill t p\<close>: \<open>kill(p, 0)\<close>, \<open>None\<close> for 0 and \<open>Some e\<close> for -1 with \<open>errno = e\<close>;
  \<^item> \<open>os_listchildpids t p n\<close>: \<open>proc_listchildpids\<close> with a buffer size of \<open>n\<close>;
  \<^item> \<open>os_waitpid t p nohang\<close>: \<open>waitpid(p, &status, nohang ? WNOHANG : 0)\<close>,
    \<open>Inr r\<close> for the result \<open>r \<ge> 0\<close>, \<open>Inl e\<close> for -1 with \<open>errno = e\<close>;
  \<^item> \<open>os_kevent_add t p\<close>: the \<open>kevent\<close> call that registers \<open>p\<close>;
  \<^item> \<open>os_kevent_wait t\<close>: the \<open>kevent\<close> call that retrieves events (at most 32).
\<close>

record os =
  os_alloc :: "nat \<Rightarrow> nat \<Rightarrow> bool"
  os_kill :: "nat \<Rightarrow> pid \<Rightarrow> errno option"
  os_listchildpids :: "nat \<Rightarrow> pid \<Rightarrow> 32 word \<Rightarrow> proc_reply"
  os_waitpid :: "nat \<Rightarrow> pid \<Rightarrow> bool \<Rightarrow> errno + nat"
  os_kevent_add :: "nat \<Rightarrow> pid \<Rightarrow> errno option"
  os_kevent_wait :: "nat \<Rightarrow> errno + kevent list"

text \<open>
  The part of the world that the process changes: the clock, what \<open>perror\<close> and
  \<open>fprintf(stderr, ...)\<close> wrote, the PIDs that a \<open>waitpid\<close> call returned (the
  processes that this process reaped), and the lines that \<open>printf\<close> wrote.
\<close>

record world =
  clock :: nat
  errlog :: "string list"
  reaped :: "pid list"
  printed :: "pid list"

definition tick :: "world \<Rightarrow> world" where
  "tick w = w\<lparr>clock := Suc (clock w)\<rparr>"

definition perror :: "string \<Rightarrow> world \<Rightarrow> world" where
  "perror msg w = w\<lparr>errlog := errlog w @ [msg]\<rparr>"

text \<open>
  How a call ends: it returns a value, the process exits with a status (\<open>exit\<close>, or
  \<open>return\<close> from \<open>main\<close>), it reads through a pointer that is null or was freed, or
  the model's fuel ran out before it returned.
\<close>

datatype 'a res = Ok 'a world | Exit nat world | Fault | OutOfFuel

definition res_bind :: "'a res \<Rightarrow> ('a \<Rightarrow> world \<Rightarrow> 'b res) \<Rightarrow> 'b res" where
  "res_bind r f =
     (case r of Ok v w \<Rightarrow> f v w | Exit c w \<Rightarrow> Exit c w | Fault \<Rightarrow> Fault
      | OutOfFuel \<Rightarrow> OutOfFuel)"

lemma res_bind_cong [fundef_cong]:
  "r = r' \<Longrightarrow> (\<And>v w. r' = Ok v w \<Longrightarrow> f v w = f' v w) \<Longrightarrow> res_bind r f = res_bind r' f'"
  by (simp add: res_bind_def split: res.splits)

lemma res_bind_simps [simp]:
  "res_bind (Ok v w) f = f v w"
  "res_bind (Exit c w) f = Exit c w"
  "res_bind Fault f = Fault"
  "res_bind OutOfFuel f = OutOfFuel"
  by (simp_all add: res_bind_def)

lemma res_bind_eq_Ok:
  "res_bind r f = Ok v' w' \<longleftrightarrow> (\<exists>v w. r = Ok v w \<and> f v w = Ok v' w')"
  by (cases r) simp_all

definition sizeof_pid_t :: nat where
  "sizeof_pid_t = 4"

subsection \<open>\<open>struct pid_set\<close>\<close>

text \<open>
  \<open>data\<close> is the allocated array (\<open>capacity\<close> cells, the empty list for \<open>NULL\<close>); the
  elements of the set are its first \<open>count\<close> cells. The cells that \<open>realloc\<close> adds are
  indeterminate in C and 0 here; the code never reads a cell at or after \<open>count\<close>.
  \<open>count\<close> and \<open>capacity\<close> are natural numbers: a set holds distinct positive \<open>pid_t\<close>
  values, fewer than \<open>2 ^ 31\<close>, so no 64-bit \<open>size_t\<close> wraps around.
\<close>

record pid_set =
  data :: "pid list"
  count :: nat
  capacity :: nat

definition pid_set_zero :: pid_set where
  "pid_set_zero = \<lparr>data = [], count = 0, capacity = 0\<rparr>"

definition elems :: "pid_set \<Rightarrow> pid list" where
  "elems s = take (count s) (data s)"

function pid_set_contains_from :: "pid_set \<Rightarrow> pid \<Rightarrow> nat \<Rightarrow> bool" where
  "pid_set_contains_from s p i =
     (if i < count s
      then (if data s ! i = p then True else pid_set_contains_from s p (Suc i))
      else False)"
  by pat_completeness auto
termination
  by (relation "measure (\<lambda>(s, p, i). count s - i)") auto

declare pid_set_contains_from.simps [simp del]

definition pid_set_contains :: "pid_set \<Rightarrow> pid \<Rightarrow> bool" where
  "pid_set_contains s p = pid_set_contains_from s p 0"

text \<open>\<open>realloc\<close> to \<open>n\<close> cells: the old contents, then indeterminate cells (0 here).\<close>

definition resize :: "pid list \<Rightarrow> nat \<Rightarrow> pid list" where
  "resize xs n = take n xs @ replicate (n - length xs) 0"

definition pid_set_store :: "pid_set \<Rightarrow> pid \<Rightarrow> pid_set" where
  "pid_set_store s p = s\<lparr>data := (data s)[count s := p], count := Suc (count s)\<rparr>"

definition pid_set_add :: "os \<Rightarrow> pid_set \<Rightarrow> pid \<Rightarrow> world \<Rightarrow> pid_set res" where
  "pid_set_add os s p w =
     (if p \<le> 0 \<or> pid_set_contains s p then Ok s w
      else if count s = capacity s then
        (let new_capacity = (if capacity s \<noteq> 0 then capacity s * 2 else 16) in
         if os_alloc os (clock w) (new_capacity * sizeof_pid_t)
         then Ok (pid_set_store
                (s\<lparr>data := resize (data s) new_capacity,
                   capacity := new_capacity\<rparr>) p) (tick w)
         else Exit 1 (perror ''realloc'' (tick w)))
      else Ok (pid_set_store s p) w)"

function pid_set_remove_from :: "pid_set \<Rightarrow> pid \<Rightarrow> nat \<Rightarrow> pid_set" where
  "pid_set_remove_from s p i =
     (if i < count s
      then (if data s ! i = p
            then s\<lparr>data := (data s)[i := data s ! (count s - 1)], count := count s - 1\<rparr>
            else pid_set_remove_from s p (Suc i))
      else s)"
  by pat_completeness auto
termination
  by (relation "measure (\<lambda>(s, p, i). count s - i)") auto

declare pid_set_remove_from.simps [simp del]

definition pid_set_remove :: "pid_set \<Rightarrow> pid \<Rightarrow> pid_set" where
  "pid_set_remove s p = pid_set_remove_from s p 0"

definition pid_set_clear :: "pid_set \<Rightarrow> pid_set" where
  "pid_set_clear s = s\<lparr>count := 0\<rparr>"

definition pid_set_swap :: "pid_set \<times> pid_set \<Rightarrow> pid_set \<times> pid_set" where
  "pid_set_swap ab = (let tmp = fst ab in (snd ab, tmp))"

text \<open>
  The shape of every set the programs build: the count is within the array, and the
  elements are positive and pairwise distinct.
\<close>

definition pid_set_wf :: "pid_set \<Rightarrow> bool" where
  "pid_set_wf s = (count s \<le> capacity s \<and> length (data s) = capacity s)"

definition pid_set_inv :: "pid_set \<Rightarrow> bool" where
  "pid_set_inv s = (pid_set_wf s \<and> distinct (elems s) \<and> list_all (\<lambda>p. 0 < p) (elems s))"

subsection \<open>Facts about \<open>struct pid_set\<close>\<close>

lemma contains_from_iff:
  "pid_set_contains_from s p i = (\<exists>j. i \<le> j \<and> j < count s \<and> data s ! j = p)"
proof (induction s p i rule: pid_set_contains_from.induct)
  case (1 s p i)
  show ?case
  proof (cases "i < count s")
    case False
    then show ?thesis by (simp add: pid_set_contains_from.simps [of s p i])
  next
    case True
    note lt = this
    show ?thesis
    proof (cases "data s ! i = p")
      case True
      with lt show ?thesis
        by (auto simp: pid_set_contains_from.simps [of s p i])
    next
      case False
      with lt 1 have "pid_set_contains_from s p i = (\<exists>j. Suc i \<le> j \<and> j < count s \<and> data s ! j = p)"
        by (simp add: pid_set_contains_from.simps [of s p i])
      also have "\<dots> = (\<exists>j. i \<le> j \<and> j < count s \<and> data s ! j = p)"
        using False by (metis Suc_leD Suc_leI le_neq_implies_less)
      finally show ?thesis .
    qed
  qed
qed

lemma contains_iff:
  "pid_set_wf s \<Longrightarrow> pid_set_contains s p = (p \<in> set (elems s))"
  by (auto simp: pid_set_contains_def contains_from_iff elems_def pid_set_wf_def in_set_conv_nth)

lemma length_elems: "pid_set_wf s \<Longrightarrow> length (elems s) = count s"
  by (simp add: elems_def pid_set_wf_def)

lemma length_resize [simp]: "length (resize xs n) = n"
  by (auto simp: resize_def)

lemma take_resize: "k \<le> length xs \<Longrightarrow> length xs \<le> n \<Longrightarrow> take k (resize xs n) = take k xs"
  by (simp add: resize_def)

lemma store_wf:
  "pid_set_wf s \<Longrightarrow> count s < capacity s \<Longrightarrow> pid_set_wf (pid_set_store s p)"
  by (simp add: pid_set_wf_def pid_set_store_def)

lemma store_elems:
  "pid_set_wf s \<Longrightarrow> count s < capacity s \<Longrightarrow> elems (pid_set_store s p) = elems s @ [p]"
  by (simp add: pid_set_wf_def pid_set_store_def elems_def take_Suc_conv_app_nth)

lemma store_capacity [simp]: "capacity (pid_set_store s p) = capacity s"
  by (simp add: pid_set_store_def)

lemma add_noop:
  "p \<le> 0 \<or> pid_set_contains s p \<Longrightarrow> pid_set_add os s p w = Ok s w"
  by (simp add: pid_set_add_def)

lemma add_Ok:
  assumes "pid_set_add os s p w = Ok s' w'" and "pid_set_wf s"
  shows "pid_set_wf s'"
    and "elems s' = (if p \<le> 0 \<or> p \<in> set (elems s) then elems s else elems s @ [p])"
    and "capacity s \<le> capacity s'"
proof -
  let ?nc = "if capacity s \<noteq> 0 then capacity s * 2 else 16"
  let ?g = "s\<lparr>data := resize (data s) ?nc, capacity := ?nc\<rparr>"
  have g: "count s = capacity s \<Longrightarrow> pid_set_wf ?g \<and> count ?g < capacity ?g \<and> elems ?g = elems s"
    using assms(2) by (auto simp: pid_set_wf_def elems_def take_resize)
  have "pid_set_wf s' \<and> elems s' = (if p \<le> 0 \<or> p \<in> set (elems s) then elems s else elems s @ [p])
      \<and> capacity s \<le> capacity s'"
  proof (cases "p \<le> 0 \<or> pid_set_contains s p")
    case True
    with assms show ?thesis by (auto simp: add_noop contains_iff)
  next
    case False
    note nc = this
    show ?thesis
    proof (cases "count s = capacity s")
      case True
      with nc assms(1) have s': "s' = pid_set_store ?g p"
        by (auto simp: pid_set_add_def Let_def split: if_splits)
      from g [OF True] have "pid_set_wf s'" "elems s' = elems s @ [p]"
        unfolding s' by (simp_all add: store_wf store_elems)
      moreover have "capacity s \<le> capacity s'" unfolding s' by simp
      ultimately show ?thesis using nc assms(2) by (simp add: contains_iff)
    next
      case False
      with nc assms(1) have s': "s' = pid_set_store s p"
        by (auto simp: pid_set_add_def Let_def split: if_splits)
      from False assms(2) have "count s < capacity s" by (simp add: pid_set_wf_def)
      then show ?thesis using nc assms(2) s' by (simp add: store_wf store_elems contains_iff)
    qed
  qed
  then show "pid_set_wf s'"
    and "elems s' = (if p \<le> 0 \<or> p \<in> set (elems s) then elems s else elems s @ [p])"
    and "capacity s \<le> capacity s'" by simp_all
qed

lemma add_world:
  assumes "pid_set_add os s p w = Ok s' w'"
  shows "errlog w' = errlog w" and "reaped w' = reaped w" and "printed w' = printed w"
    and "clock w \<le> clock w'"
  using assms by (auto simp: pid_set_add_def Let_def tick_def split: if_splits)

lemma add_inv:
  assumes "pid_set_add os s p w = Ok s' w'" and "pid_set_inv s"
  shows "pid_set_inv s'"
  using add_Ok(1,2) [OF assms(1)] assms(2)
  by (auto simp: pid_set_inv_def)

lemma add_prefix:
  assumes "pid_set_add os s p w = Ok s' w'" and "pid_set_wf s"
  shows "prefix (elems s) (elems s')"
  using add_Ok(2) [OF assms] by simp

lemma remove_from_absent:
  "\<not> pid_set_contains_from s p i \<Longrightarrow> pid_set_remove_from s p i = s"
proof (induction s p i rule: pid_set_remove_from.induct)
  case (1 s p i)
  then show ?case
    by (simp add: pid_set_remove_from.simps [of s p i] pid_set_contains_from.simps [of s p i]
        split: if_splits)
qed

lemma remove_from_present:
  "pid_set_contains_from s p i \<Longrightarrow>
   \<exists>j. i \<le> j \<and> j < count s \<and> data s ! j = p \<and>
       pid_set_remove_from s p i =
         s\<lparr>data := (data s)[j := data s ! (count s - 1)], count := count s - 1\<rparr>"
proof (induction s p i rule: pid_set_remove_from.induct)
  case (1 s p i)
  from "1.prems" have lt: "i < count s"
    by (simp add: pid_set_contains_from.simps [of s p i] split: if_splits)
  show ?case
  proof (cases "data s ! i = p")
    case True
    with lt show ?thesis
      by (intro exI [of _ i]) (simp add: pid_set_remove_from.simps [of s p i])
  next
    case False
    with lt "1.prems" have "pid_set_contains_from s p (Suc i)"
      by (simp add: pid_set_contains_from.simps [of s p i])
    from "1.IH" [OF lt False this] obtain j where
      "Suc i \<le> j" "j < count s" "data s ! j = p"
      "pid_set_remove_from s p (Suc i) =
         s\<lparr>data := (data s)[j := data s ! (count s - 1)], count := count s - 1\<rparr>" by blast
    with lt False show ?thesis
      by (intro exI [of _ j]) (simp add: pid_set_remove_from.simps [of s p i])
  qed
qed

lemma swap_remove_list:
  assumes "distinct xs" and "j < length xs"
  shows "set (take (length xs - 1) (xs[j := xs ! (length xs - 1)])) = set xs - {xs ! j}"
    and "distinct (take (length xs - 1) (xs[j := xs ! (length xs - 1)]))"
proof -
  from assms(2) have ne: "xs \<noteq> []" by auto
  define ys where "ys = butlast xs"
  define v where "v = last xs"
  have xs: "xs = ys @ [v]" using ne by (simp add: ys_def v_def)
  have v: "xs ! (length xs - 1) = v" using ne by (simp add: v_def last_conv_nth)
  have dy: "distinct ys" "v \<notin> set ys" using assms(1) xs by auto
  have tk: "take (length xs - 1) (xs[j := v]) = ys[j := v]"
    by (cases "j < length ys") (simp_all add: xs list_update_append list_update_beyond)
  show "set (take (length xs - 1) (xs[j := xs ! (length xs - 1)])) = set xs - {xs ! j}"
  proof (cases "j < length ys")
    case True
    then show ?thesis unfolding v tk using dy
      by (auto simp: xs nth_append set_update_distinct)
  next
    case False
    with assms(2) have "j = length ys" by (simp add: xs)
    then show ?thesis unfolding v tk using dy by (auto simp: xs list_update_beyond)
  qed
  show "distinct (take (length xs - 1) (xs[j := xs ! (length xs - 1)]))"
    unfolding v tk using dy by (simp add: distinct_list_update)
qed

lemma remove_absent:
  "pid_set_wf s \<Longrightarrow> p \<notin> set (elems s) \<Longrightarrow> pid_set_remove s p = s"
  by (simp add: pid_set_remove_def remove_from_absent contains_iff [symmetric] pid_set_contains_def)

lemma remove_present:
  assumes "pid_set_wf s" and "distinct (elems s)" and "p \<in> set (elems s)"
  shows "count (pid_set_remove s p) = count s - 1"
    and "0 < count s"
    and "set (elems (pid_set_remove s p)) = set (elems s) - {p}"
    and "distinct (elems (pid_set_remove s p))"
    and "pid_set_wf (pid_set_remove s p)"
    and "capacity (pid_set_remove s p) = capacity s"
proof -
  from assms(1,3) have "pid_set_contains_from s p 0"
    by (simp add: contains_iff [symmetric] pid_set_contains_def)
  from remove_from_present [OF this] obtain j where
    j: "j < count s" "data s ! j = p" and
    r: "pid_set_remove s p = s\<lparr>data := (data s)[j := data s ! (count s - 1)], count := count s - 1\<rparr>"
    by (auto simp: pid_set_remove_def)
  let ?xs = "elems s"
  have len: "length ?xs = count s" using assms(1) by (rule length_elems)
  have e: "elems (pid_set_remove s p) = take (length ?xs - 1) (?xs[j := ?xs ! (length ?xs - 1)])"
    using j assms(1) unfolding r len
    by (simp add: elems_def pid_set_wf_def take_update_swap min_def)
  have pj: "?xs ! j = p" using j by (simp add: elems_def)
  show "count (pid_set_remove s p) = count s - 1" by (simp add: r)
  show "0 < count s" using j by simp
  show "set (elems (pid_set_remove s p)) = set (elems s) - {p}"
    unfolding e using swap_remove_list(1) [OF assms(2), of j] j len pj by simp
  show "distinct (elems (pid_set_remove s p))"
    unfolding e using swap_remove_list(2) [OF assms(2), of j] j len by simp
  show "pid_set_wf (pid_set_remove s p)"
    using assms(1) by (auto simp: r pid_set_wf_def)
  show "capacity (pid_set_remove s p) = capacity s" by (simp add: r)
qed

lemma remove_inv:
  assumes "pid_set_inv s"
  shows "pid_set_inv (pid_set_remove s p)"
proof (cases "p \<in> set (elems s)")
  case False
  with assms show ?thesis by (simp add: remove_absent pid_set_inv_def)
next
  case True
  from assms have wf: "pid_set_wf s" and d: "distinct (elems s)"
    and pos: "\<forall>q\<in>set (elems s). 0 < q"
    by (simp_all add: pid_set_inv_def list_all_iff)
  from remove_present(3,4,5) [OF wf d True] pos show ?thesis
    by (simp add: pid_set_inv_def list_all_iff)
qed


lemma zero_inv: "pid_set_inv pid_set_zero"
  by (simp add: pid_set_inv_def pid_set_wf_def pid_set_zero_def elems_def)

lemma clear_inv: "pid_set_inv s \<Longrightarrow> pid_set_inv (pid_set_clear s)"
  by (simp add: pid_set_inv_def pid_set_wf_def pid_set_clear_def elems_def)

lemma swap_eq [simp]: "pid_set_swap (a, b) = (b, a)"
  by (simp add: pid_set_swap_def)

subsection \<open>\<open>struct child_buffer\<close> and \<open>list_children\<close>\<close>

text \<open>
  \<open>buf_data\<close> is the array that \<open>data\<close> points to (\<open>None\<close> for \<open>NULL\<close>) and
  \<open>buf_capacity\<close> is \<open>capacity\<close>. \<open>buf_block\<close> names the allocated block: every
  successful \<open>malloc\<close> or \<open>realloc\<close> gives a new one, and a pointer into an older
  block is dangling. The \<open>children\<close> pointer that \<open>list_children\<close> hands out is the
  name of the block it points to (\<open>None\<close> for \<open>NULL\<close>); \<open>child_at\<close> reads
  \<open>children[j]\<close> and is \<open>None\<close> where the read is through a null or dangling pointer
  or outside the block.
\<close>

record child_buffer =
  buf_data :: "pid list option"
  buf_capacity :: nat
  buf_block :: nat

definition child_buffer_zero :: child_buffer where
  "child_buffer_zero = \<lparr>buf_data = None, buf_capacity = 0, buf_block = 0\<rparr>"

definition child_at :: "child_buffer \<Rightarrow> nat option \<Rightarrow> nat \<Rightarrow> pid option" where
  "child_at b children j =
     (case children of
        None \<Rightarrow> None
      | Some blk \<Rightarrow>
          (case buf_data b of
             None \<Rightarrow> None
           | Some arr \<Rightarrow> if blk = buf_block b \<and> j < length arr then Some (arr ! j) else None))"

text \<open>The kernel stores \<open>ws\<close> at the front of the array, as far as the array reaches.\<close>

definition buf_write :: "pid list \<Rightarrow> pid list \<Rightarrow> pid list" where
  "buf_write arr ws = take (length arr) (ws @ drop (length ws) arr)"

text \<open>
  The call \<open>proc_listchildpids(pid, buffer->data, (int)(buffer->capacity * sizeof(pid_t)))\<close>:
  the reply, the buffer as the kernel left it, and the world.
\<close>

definition proc_listchildpids ::
  "os \<Rightarrow> pid \<Rightarrow> child_buffer \<Rightarrow> world \<Rightarrow> proc_reply \<times> child_buffer \<times> world"
where
  "proc_listchildpids os pid b w =
     (let r = os_listchildpids os (clock w) pid (word_of_nat (buf_capacity b * sizeof_pid_t))
      in (r, b\<lparr>buf_data := map_option (\<lambda>arr. buf_write arr (pr_written r)) (buf_data b)\<rparr>,
          tick w))"

text \<open>The buffer after a \<open>realloc\<close> to \<open>new_capacity\<close> cells that succeeded.\<close>

definition buffer_grown :: "child_buffer \<Rightarrow> nat \<Rightarrow> child_buffer" where
  "buffer_grown b new_capacity =
     b\<lparr>buf_data := Some (resize (case buf_data b of None \<Rightarrow> [] | Some arr \<Rightarrow> arr) new_capacity),
       buf_capacity := new_capacity,
       buf_block := Suc (buf_block b)\<rparr>"

text \<open>The value of the pointer \<open>buffer->data\<close>.\<close>

definition buf_ptr :: "child_buffer \<Rightarrow> nat option" where
  "buf_ptr b = map_option (\<lambda>_. buf_block b) (buf_data b)"

text \<open>
  The \<open>while (1)\<close> loop of \<open>list_children\<close> (the same text in both files). The result
  is the return value, \<open>*children\<close>, \<open>*count\<close> and the buffer. Sizes are natural
  numbers: the result of the call is an \<open>int\<close>, so the loop doubles a capacity only
  while it is below \<open>2 ^ 31\<close>, the capacity stays below \<open>2 ^ 32\<close> (\<open>listing_ok\<close>
  below), and no 64-bit \<open>size_t\<close> wraps around. The loop does not return when the
  capacity is 0 and every call succeeds, so it is a partial function, with \<open>None\<close> for
  a loop that does not return.
\<close>

partial_function (option) list_children_loop ::
  "os \<Rightarrow> pid \<Rightarrow> child_buffer \<Rightarrow> world \<Rightarrow> (int \<times> nat option \<times> nat \<times> child_buffer) res option"
where
  "list_children_loop os pid b w =
     (case proc_listchildpids os pid b w of
        (r, b1, w1) \<Rightarrow>
          let result = sint (pr_result r) in
          if result < 0 then
            (if pr_errno r = ESRCH then Some (Ok (0, None, 0, b1) w1)
             else Some (Ok (- 1, None, 0, b1) w1))
          else
            (let returned = nat result in
             if returned < buf_capacity b1 then Some (Ok (0, buf_ptr b1, returned, b1) w1)
             else
               (let new_capacity = buf_capacity b1 * 2 in
                if os_alloc os (clock w1) (new_capacity * sizeof_pid_t)
                then list_children_loop os pid (buffer_grown b1 new_capacity) (tick w1)
                else Some (Ok (- 1, None, 0, b1) (tick w1)))))"

declare list_children_loop.simps [code]

text \<open>
  \<open>list_children\<close> enters the loop with a capacity that is not 0, and then the loop
  returns (\<open>loop_returns\<close> below); a loop that did not return would leave the caller
  without a result, which is \<open>OutOfFuel\<close>.
\<close>

definition list_children ::
  "os \<Rightarrow> pid \<Rightarrow> child_buffer \<Rightarrow> world \<Rightarrow> (int \<times> nat option \<times> nat \<times> child_buffer) res"
where
  "list_children os pid b w =
     (if buf_capacity b = 0 then
        (if os_alloc os (clock w) (16 * sizeof_pid_t)
         then (case list_children_loop os pid
                      (b\<lparr>buf_data := Some (replicate 16 0), buf_capacity := 16,
                         buf_block := Suc (buf_block b)\<rparr>) (tick w) of
                 Some r \<Rightarrow> r | None \<Rightarrow> OutOfFuel)
         else Ok (- 1, None, 0, b\<lparr>buf_data := None, buf_capacity := 16\<rparr>) (tick w))
      else (case list_children_loop os pid b w of Some r \<Rightarrow> r | None \<Rightarrow> OutOfFuel))"

text \<open>An allocated buffer has \<open>capacity\<close> cells.\<close>

definition buffer_wf :: "child_buffer \<Rightarrow> bool" where
  "buffer_wf b = (case buf_data b of None \<Rightarrow> True | Some arr \<Rightarrow> length arr = buf_capacity b)"

subsection \<open>Facts about \<open>list_children\<close>\<close>

lemma plc_frame:
  assumes "proc_listchildpids os pid b w = (r, b1, w1)"
  shows "buf_capacity b1 = buf_capacity b" and "buf_block b1 = buf_block b"
    and "w1 = tick w" and "buffer_wf b \<Longrightarrow> buffer_wf b1"
    and "(buf_data b1 = None) = (buf_data b = None)"
  using assms
  by (auto simp: proc_listchildpids_def Let_def buffer_wf_def buf_write_def split: option.splits)

lemma grown_frame:
  "buf_capacity (buffer_grown b n) = n" "buffer_wf (buffer_grown b n)"
  "buf_data (buffer_grown b n) \<noteq> None"
  by (simp_all add: buffer_grown_def buffer_wf_def)

lemma tick_frame [simp]:
  "errlog (tick w) = errlog w" "reaped (tick w) = reaped w" "printed (tick w) = printed w"
  "clock (tick w) = Suc (clock w)"
  by (simp_all add: tick_def)

text \<open>What a returned listing satisfies.\<close>

definition listing_ok ::
  "child_buffer \<Rightarrow> world \<Rightarrow> (int \<times> nat option \<times> nat \<times> child_buffer) res \<Rightarrow> bool"
where
  "listing_ok b w r =
     (case r of
        Ok (rc, children, n, b') w' \<Rightarrow>
          buf_capacity b \<le> buf_capacity b' \<and> (rc = 0 \<or> rc = - 1) \<and>
          (if rc = 0 then n < buf_capacity b' \<and> (children = None \<or> children = buf_ptr b')
           else children = None \<and> n = 0) \<and>
          (buffer_wf b \<longrightarrow> buffer_wf b') \<and>
          (buf_capacity b < 4294967296 \<longrightarrow> buf_capacity b' < 4294967296) \<and>
          errlog w' = errlog w \<and> reaped w' = reaped w \<and> printed w' = printed w \<and>
          clock w < clock w'
      | _ \<Rightarrow> False)"

lemma loop_returns:
  "buf_capacity b \<noteq> 0 \<Longrightarrow> \<exists>r. list_children_loop os pid b w = Some r \<and> listing_ok b w r"
proof (induction "2147483648 - buf_capacity b" arbitrary: b w rule: less_induct)
  case less
  obtain r b1 w1 where call: "proc_listchildpids os pid b w = (r, b1, w1)"
    by (cases "proc_listchildpids os pid b w") auto
  note fr = plc_frame [OF call]
  let ?result = "sint (pr_result r)"
  show ?case
  proof (cases "?result < 0")
    case True
    then show ?thesis
      using fr less.prems by (subst list_children_loop.simps) (simp add: call listing_ok_def)
  next
    case False
    note nonneg = this
    show ?thesis
    proof (cases "nat ?result < buf_capacity b1")
      case True
      then show ?thesis
        using fr nonneg by (subst list_children_loop.simps) (simp add: call listing_ok_def)
    next
      case False
      note full = this
      show ?thesis
      proof (cases "os_alloc os (clock w1) (buf_capacity b1 * 2 * sizeof_pid_t)")
        case False
        then show ?thesis
          using fr nonneg full
          by (subst list_children_loop.simps) (simp add: call listing_ok_def Let_def)
      next
        case True
        let ?g = "buffer_grown b1 (buf_capacity b1 * 2)"
        have "?result < 2147483648" using sint_lt [of "pr_result r"] by simp
        with full nonneg have "buf_capacity b1 < 2147483648" by linarith
        with less.prems fr have m: "2147483648 - buf_capacity ?g < 2147483648 - buf_capacity b"
          by (simp add: grown_frame)
        have ne: "buf_capacity ?g \<noteq> 0" using less.prems fr by (simp add: grown_frame)
        from less.hyps [OF m ne, of "tick w1"] obtain r' where
          r': "list_children_loop os pid ?g (tick w1) = Some r'" "listing_ok ?g (tick w1) r'"
          by blast
        have eq: "list_children_loop os pid b w = list_children_loop os pid ?g (tick w1)"
          using nonneg full True
          by (subst list_children_loop.simps) (simp add: call Let_def)
        have "listing_ok b w r'"
          using r'(2) fr \<open>buf_capacity b1 < 2147483648\<close>
          by (auto simp: listing_ok_def grown_frame split: res.splits)
        with r'(1) eq show ?thesis by simp
      qed
    qed
  qed
qed

lemma list_children_ok: "listing_ok b w (list_children os pid b w)"
proof (cases "buf_capacity b = 0")
  case False
  from loop_returns [OF this, of os pid w] show ?thesis
    using False by (auto simp: list_children_def)
next
  case True
  note z = this
  show ?thesis
  proof (cases "os_alloc os (clock w) (16 * sizeof_pid_t)")
    case False
    with z show ?thesis by (simp add: list_children_def listing_ok_def buffer_wf_def)
  next
    case True
    let ?b = "b\<lparr>buf_data := Some (replicate 16 0), buf_capacity := 16, buf_block := Suc (buf_block b)\<rparr>"
    have "buf_capacity ?b \<noteq> 0" by simp
    from loop_returns [OF this, of os pid "tick w"] obtain r where
      r: "list_children_loop os pid ?b (tick w) = Some r" "listing_ok ?b (tick w) r" by blast
    from r(2) have "listing_ok b w r"
      using z by (auto simp: listing_ok_def buffer_wf_def split: res.splits)
    with r(1) z True show ?thesis by (simp add: list_children_def)
  qed
qed

subsection \<open>System calls with an effect on the world\<close>

text \<open>\<open>pid_is_alive\<close> of \<open>track_descendants.c\<close>.\<close>

definition pid_is_alive :: "os \<Rightarrow> pid \<Rightarrow> world \<Rightarrow> bool res" where
  "pid_is_alive os p w =
     (if p \<le> 0 then Ok False w
      else (case os_kill os (clock w) p of
              None \<Rightarrow> Ok True (tick w)
            | Some e \<Rightarrow> Ok (e = EPERM) (tick w)))"

text \<open>\<open>waitpid\<close>: a result that is a PID means that this process was reaped.\<close>

definition waitpid :: "os \<Rightarrow> pid \<Rightarrow> bool \<Rightarrow> world \<Rightarrow> (errno + nat) res" where
  "waitpid os p nohang w =
     (let r = os_waitpid os (clock w) p nohang in
      Ok r ((tick w)\<lparr>reaped := (case r of Inr q \<Rightarrow> if 0 < q then reaped w @ [int q] else reaped w
                                  | Inl e \<Rightarrow> reaped w)\<rparr>))"

text \<open>The value that \<open>waitpid\<close> returned, as the \<open>pid_t\<close> the code compares.\<close>

definition wait_result :: "errno + nat \<Rightarrow> pid" where
  "wait_result r = (case r of Inr q \<Rightarrow> int q | Inl e \<Rightarrow> - 1)"

definition usleep :: "nat \<Rightarrow> world \<Rightarrow> world" where
  "usleep delay w = tick w"

text \<open>The loop of \<open>main\<close> that prints the seen set, one \<open>printf\<close> for each element.\<close>

function print_from :: "pid_set \<Rightarrow> nat \<Rightarrow> world \<Rightarrow> world" where
  "print_from s i w =
     (if i < count s then print_from s (Suc i) (w\<lparr>printed := printed w @ [data s ! i]\<rparr>)
      else w)"
  by pat_completeness auto
termination
  by (relation "measure (\<lambda>(s, i, w). count s - i)") auto

declare print_from.simps [simp del]

subsection \<open>The polling engine: \<open>main\<close> of \<open>track_descendants.c\<close>\<close>

text \<open>
  The local variables of \<open>main\<close>. The event-driven engine has the first four, the
  polling engine all of them.
\<close>

record tracker =
  seen :: pid_set
  active :: pid_set
  child_buf :: child_buffer
  child_exited :: bool

record poller = tracker +
  next_active :: pid_set
  to_poll :: pid_set
  next_to_poll :: pid_set
  warmup_iterations :: int

text \<open>
  \<open>pid_set_add(&seen, pid)\<close> and the like: the call on one of the sets of \<open>main\<close>,
  which the callee reaches through a pointer.
\<close>

definition add_seen :: "os \<Rightarrow> pid \<Rightarrow> 'a tracker_scheme \<Rightarrow> world \<Rightarrow> 'a tracker_scheme res" where
  "add_seen os p st w = res_bind (pid_set_add os (seen st) p w) (\<lambda>s w'. Ok (st\<lparr>seen := s\<rparr>) w')"

definition add_active :: "os \<Rightarrow> pid \<Rightarrow> 'a tracker_scheme \<Rightarrow> world \<Rightarrow> 'a tracker_scheme res" where
  "add_active os p st w =
     res_bind (pid_set_add os (active st) p w) (\<lambda>s w'. Ok (st\<lparr>active := s\<rparr>) w')"

definition add_next_active :: "os \<Rightarrow> pid \<Rightarrow> poller \<Rightarrow> world \<Rightarrow> poller res" where
  "add_next_active os p st w =
     res_bind (pid_set_add os (next_active st) p w) (\<lambda>s w'. Ok (st\<lparr>next_active := s\<rparr>) w')"

definition add_next_to_poll :: "os \<Rightarrow> pid \<Rightarrow> poller \<Rightarrow> world \<Rightarrow> poller res" where
  "add_next_to_poll os p st w =
     res_bind (pid_set_add os (next_to_poll st) p w) (\<lambda>s w'. Ok (st\<lparr>next_to_poll := s\<rparr>) w')"

definition add_to_poll :: "os \<Rightarrow> pid \<Rightarrow> poller \<Rightarrow> world \<Rightarrow> poller res" where
  "add_to_poll os p st w =
     res_bind (pid_set_add os (to_poll st) p w) (\<lambda>s w'. Ok (st\<lparr>to_poll := s\<rparr>) w')"

text \<open>The body of the loop over the children, lines 177 to 187, for one \<open>child_pid\<close>.\<close>

definition poll_child :: "os \<Rightarrow> pid \<Rightarrow> poller \<Rightarrow> world \<Rightarrow> poller res" where
  "poll_child os child_pid st w =
     (if child_pid \<le> 0 then Ok st w
      else
        res_bind
          (if \<not> pid_set_contains (seen st) child_pid then add_seen os child_pid st w
           else Ok st w)
          (\<lambda>st1 w1.
             res_bind (pid_is_alive os child_pid w1)
               (\<lambda>alive w2.
                  if alive then
                    res_bind (add_next_active os child_pid st1 w2)
                      (\<lambda>st2 w3. add_next_to_poll os child_pid st2 w3)
                  else Ok st1 w2)))"

text \<open>The loop over \<open>children[j]\<close>, lines 176 to 188.\<close>

function poll_children ::
  "os \<Rightarrow> nat option \<Rightarrow> nat \<Rightarrow> nat \<Rightarrow> poller \<Rightarrow> world \<Rightarrow> poller res"
where
  "poll_children os children child_count j st w =
     (if j < child_count then
        (case child_at (child_buf st) children j of
           None \<Rightarrow> Fault
         | Some child_pid \<Rightarrow>
             res_bind (poll_child os child_pid st w)
               (\<lambda>st' w'. poll_children os children child_count (Suc j) st' w'))
      else Ok st w)"
  by pat_completeness auto
termination
  by (relation "measure (\<lambda>(os, children, child_count, j, st, w). child_count - j)") auto

declare poll_children.simps [simp del]

text \<open>The body of the loop over the frontier, lines 161 to 188, for one \<open>current\<close>.\<close>

definition poll_current :: "os \<Rightarrow> pid \<Rightarrow> poller \<Rightarrow> world \<Rightarrow> poller res" where
  "poll_current os current st w =
     res_bind (pid_is_alive os current w)
       (\<lambda>alive w1.
          if \<not> alive then Ok st w1
          else
            res_bind (add_next_active os current st w1)
              (\<lambda>st1 w2.
                 res_bind (add_next_to_poll os current st1 w2)
                   (\<lambda>st2 w3.
                      res_bind (list_children os current (child_buf st2) w3)
                        (\<lambda>(rc, children, child_count, b) w4.
                           let st3 = st2\<lparr>child_buf := b\<rparr> in
                           if rc \<noteq> 0 then Ok st3 (perror ''proc_listchildpids'' w4)
                           else poll_children os children child_count 0 st3 w4))))"

text \<open>
  What one pass over the frontier leaves alone (\<open>poll_keeps\<close>), the invariant of the five
  sets, and how the pass may change them (\<open>poll_grows\<close>): the seen set only gets longer
  at its end.
\<close>

definition poll_keeps :: "poller \<Rightarrow> world \<Rightarrow> poller \<Rightarrow> world \<Rightarrow> bool" where
  "poll_keeps st w st' w' =
     (to_poll st' = to_poll st \<and> active st' = active st \<and> child_exited st' = child_exited st \<and>
      warmup_iterations st' = warmup_iterations st \<and> reaped w' = reaped w \<and> printed w' = printed w)"

definition poller_inv :: "poller \<Rightarrow> bool" where
  "poller_inv st =
     (pid_set_inv (seen st) \<and> pid_set_inv (active st) \<and> pid_set_inv (next_active st) \<and>
      pid_set_inv (to_poll st) \<and> pid_set_inv (next_to_poll st))"

definition poll_grows :: "poller \<Rightarrow> poller \<Rightarrow> bool" where
  "poll_grows st st' = (poller_inv st' \<and> prefix (elems (seen st)) (elems (seen st')))"

lemma poll_keeps_refl [simp]: "poll_keeps st w st w"
  by (simp add: poll_keeps_def)

lemma poll_keeps_trans:
  "poll_keeps st w st1 w1 \<Longrightarrow> poll_keeps st1 w1 st2 w2 \<Longrightarrow> poll_keeps st w st2 w2"
  by (simp add: poll_keeps_def)

lemma poll_grows_refl: "poller_inv st \<Longrightarrow> poll_grows st st"
  by (simp add: poll_grows_def)

lemma poll_grows_trans:
  "poll_grows st st1 \<Longrightarrow> poll_grows st1 st2 \<Longrightarrow> poll_grows st st2"
  by (auto simp: poll_grows_def)

lemma add_seen_Ok:
  "add_seen os p st w = Ok st' w' \<longleftrightarrow>
   (\<exists>s'. pid_set_add os (seen st) p w = Ok s' w' \<and> st' = st\<lparr>seen := s'\<rparr>)"
  by (auto simp: add_seen_def res_bind_eq_Ok)

lemma add_active_Ok:
  "add_active os p st w = Ok st' w' \<longleftrightarrow>
   (\<exists>s'. pid_set_add os (active st) p w = Ok s' w' \<and> st' = st\<lparr>active := s'\<rparr>)"
  by (auto simp: add_active_def res_bind_eq_Ok)

lemma add_next_active_Ok:
  "add_next_active os p st w = Ok st' w' \<longleftrightarrow>
   (\<exists>s'. pid_set_add os (next_active st) p w = Ok s' w' \<and> st' = st\<lparr>next_active := s'\<rparr>)"
  by (auto simp: add_next_active_def res_bind_eq_Ok)

lemma add_next_to_poll_Ok:
  "add_next_to_poll os p st w = Ok st' w' \<longleftrightarrow>
   (\<exists>s'. pid_set_add os (next_to_poll st) p w = Ok s' w' \<and> st' = st\<lparr>next_to_poll := s'\<rparr>)"
  by (auto simp: add_next_to_poll_def res_bind_eq_Ok)

lemma add_seen_poll:
  assumes "add_seen os p st w = Ok st' w'"
  shows "poll_keeps st w st' w'" and "poller_inv st \<Longrightarrow> poll_grows st st'"
  using assms
  by (auto simp: add_seen_Ok poll_keeps_def poll_grows_def poller_inv_def pid_set_inv_def
      dest: add_world add_inv add_prefix)

lemma add_next_active_poll:
  assumes "add_next_active os p st w = Ok st' w'"
  shows "poll_keeps st w st' w'" and "poller_inv st \<Longrightarrow> poll_grows st st'"
  using assms
  by (auto simp: add_next_active_Ok poll_keeps_def poll_grows_def poller_inv_def
      dest: add_world add_inv)

lemma add_next_to_poll_poll:
  assumes "add_next_to_poll os p st w = Ok st' w'"
  shows "poll_keeps st w st' w'" and "poller_inv st \<Longrightarrow> poll_grows st st'"
  using assms
  by (auto simp: add_next_to_poll_Ok poll_keeps_def poll_grows_def poller_inv_def
      dest: add_world add_inv)

lemma pid_is_alive_world:
  assumes "pid_is_alive os p w = Ok a w'"
  shows "reaped w' = reaped w" and "printed w' = printed w" and "errlog w' = errlog w"
  using assms by (auto simp: pid_is_alive_def split: if_splits option.splits)

lemma poll_child_keeps:
  assumes "poll_child os c st w = Ok st' w'"
  shows "poll_keeps st w st' w'"
proof (cases "c \<le> 0")
  case True
  with assms show ?thesis by (simp add: poll_child_def)
next
  case False
  with assms obtain st1 w1 a w2 where
    s1: "(if \<not> pid_set_contains (seen st) c then add_seen os c st w else Ok st w) = Ok st1 w1"
    and al: "pid_is_alive os c w1 = Ok a w2"
    and rest: "(if a then res_bind (add_next_active os c st1 w2) (\<lambda>st2 w3. add_next_to_poll os c st2 w3)
                else Ok st1 w2) = Ok st' w'"
    by (auto simp: poll_child_def res_bind_eq_Ok)
  from s1 have k1: "poll_keeps st w st1 w1"
    by (auto split: if_splits dest: add_seen_poll(1))
  have k2: "poll_keeps st1 w1 st1 w2"
    using pid_is_alive_world [OF al] by (simp add: poll_keeps_def)
  from rest have k3: "poll_keeps st1 w2 st' w'"
    by (auto split: if_splits simp: res_bind_eq_Ok
        dest!: add_next_active_poll(1) add_next_to_poll_poll(1) intro: poll_keeps_trans)
  from k1 k2 k3 show ?thesis by (blast intro: poll_keeps_trans)
qed

lemma poll_child_grows:
  assumes "poll_child os c st w = Ok st' w'" and "poller_inv st"
  shows "poll_grows st st'"
proof (cases "c \<le> 0")
  case True
  with assms show ?thesis by (simp add: poll_child_def poll_grows_refl)
next
  case False
  with assms obtain st1 w1 a w2 where
    s1: "(if \<not> pid_set_contains (seen st) c then add_seen os c st w else Ok st w) = Ok st1 w1"
    and al: "pid_is_alive os c w1 = Ok a w2"
    and rest: "(if a then res_bind (add_next_active os c st1 w2) (\<lambda>st2 w3. add_next_to_poll os c st2 w3)
                else Ok st1 w2) = Ok st' w'"
    by (auto simp: poll_child_def res_bind_eq_Ok)
  from s1 assms(2) have g1: "poll_grows st st1"
    by (auto split: if_splits dest: add_seen_poll(2) intro: poll_grows_refl)
  then have i1: "poller_inv st1" by (simp add: poll_grows_def)
  have g2: "poll_grows st1 st'"
  proof (cases a)
    case False
    with rest i1 show ?thesis by (simp add: poll_grows_refl)
  next
    case True
    with rest obtain st2 w3 where a2: "add_next_active os c st1 w2 = Ok st2 w3"
      and a3: "add_next_to_poll os c st2 w3 = Ok st' w'"
      by (auto simp: res_bind_eq_Ok)
    from add_next_active_poll(2) [OF a2 i1] have g: "poll_grows st1 st2" .
    then have "poller_inv st2" by (simp add: poll_grows_def)
    from add_next_to_poll_poll(2) [OF a3 this] g show ?thesis by (rule poll_grows_trans [rotated])
  qed
  from g1 g2 show ?thesis by (rule poll_grows_trans)
qed

lemma poll_children_keeps:
  "poll_children os children child_count j st w = Ok st' w' \<Longrightarrow> poll_keeps st w st' w'"
proof (induction os children child_count j st w rule: poll_children.induct)
  case (1 os children child_count j st w)
  show ?case
  proof (cases "j < child_count")
    case False
    with "1.prems" show ?thesis by (simp add: poll_children.simps [of _ _ _ j])
  next
    case True
    with "1.prems" obtain c st1 w1 where
      c: "child_at (child_buf st) children j = Some c"
      and b: "poll_child os c st w = Ok st1 w1"
      and r: "poll_children os children child_count (Suc j) st1 w1 = Ok st' w'"
      by (auto simp: poll_children.simps [of _ _ _ j] res_bind_eq_Ok split: option.splits)
    from "1.IH" [OF True c b r] poll_child_keeps [OF b] show ?thesis
      by (blast intro: poll_keeps_trans)
  qed
qed

lemma poll_children_grows:
  "poll_children os children child_count j st w = Ok st' w' \<Longrightarrow> poller_inv st \<Longrightarrow>
   poll_grows st st'"
proof (induction os children child_count j st w rule: poll_children.induct)
  case (1 os children child_count j st w)
  show ?case
  proof (cases "j < child_count")
    case False
    with "1.prems" show ?thesis by (simp add: poll_children.simps [of _ _ _ j] poll_grows_refl)
  next
    case True
    with "1.prems" obtain c st1 w1 where
      c: "child_at (child_buf st) children j = Some c"
      and b: "poll_child os c st w = Ok st1 w1"
      and r: "poll_children os children child_count (Suc j) st1 w1 = Ok st' w'"
      by (auto simp: poll_children.simps [of _ _ _ j] res_bind_eq_Ok split: option.splits)
    from poll_child_grows [OF b "1.prems"(2)] have g: "poll_grows st st1" .
    then have "poller_inv st1" by (simp add: poll_grows_def)
    from "1.IH" [OF True c b r this] g show ?thesis
      by (blast intro: poll_grows_trans)
  qed
qed

lemma perror_frame [simp]:
  "errlog (perror m w) = errlog w @ [m]" "reaped (perror m w) = reaped w"
  "printed (perror m w) = printed w" "clock (perror m w) = clock w"
  by (simp_all add: perror_def)

lemma list_children_Ok:
  obtains rc children n b' w' where "list_children os pid b w = Ok (rc, children, n, b') w'"
    and "listing_ok b w (Ok (rc, children, n, b') w')"
  using list_children_ok [of b w os pid]
  by (cases "list_children os pid b w") (auto simp: listing_ok_def)

lemma list_children_world:
  assumes "list_children os pid b w = Ok v w'"
  shows "reaped w' = reaped w" and "printed w' = printed w" and "errlog w' = errlog w"
  using list_children_ok [of b w os pid] assms
  by (auto simp: listing_ok_def)

lemma poll_current_keeps:
  assumes "poll_current os c st w = Ok st' w'"
  shows "poll_keeps st w st' w'"
proof -
  from assms obtain a w1 where al: "pid_is_alive os c w = Ok a w1"
    and r1: "(if \<not> a then Ok st w1 else
      res_bind (add_next_active os c st w1)
              (\<lambda>st1 w2.
                 res_bind (add_next_to_poll os c st1 w2)
                   (\<lambda>st2 w3.
                      res_bind (list_children os c (child_buf st2) w3)
                        (\<lambda>(rc, children, child_count, b) w4.
                           let st3 = st2\<lparr>child_buf := b\<rparr> in
                           if rc \<noteq> 0 then Ok st3 (perror ''proc_listchildpids'' w4)
                           else poll_children os children child_count 0 st3 w4)))) = Ok st' w'"
    by (auto simp: poll_current_def res_bind_eq_Ok)
  have k0: "poll_keeps st w st w1"
    using pid_is_alive_world [OF al] by (simp add: poll_keeps_def)
  show ?thesis
  proof (cases a)
    case False
    with r1 k0 show ?thesis by simp
  next
    case True
    with r1 obtain st1 w2 st2 w3 rc children n b w4 where
      a1: "add_next_active os c st w1 = Ok st1 w2"
      and a2: "add_next_to_poll os c st1 w2 = Ok st2 w3"
      and l: "list_children os c (child_buf st2) w3 = Ok (rc, children, n, b) w4"
      and r2: "(if rc \<noteq> 0 then Ok (st2\<lparr>child_buf := b\<rparr>) (perror ''proc_listchildpids'' w4)
                else poll_children os children n 0 (st2\<lparr>child_buf := b\<rparr>) w4) = Ok st' w'"
      by (auto simp: res_bind_eq_Ok Let_def)
    have k3: "poll_keeps st2 w3 (st2\<lparr>child_buf := b\<rparr>) w4"
      using list_children_world [OF l] by (simp add: poll_keeps_def)
    have k4: "poll_keeps (st2\<lparr>child_buf := b\<rparr>) w4 st' w'"
    proof (cases "rc \<noteq> 0")
      case True
      with r2 show ?thesis by (auto simp: poll_keeps_def)
    next
      case False
      with r2 show ?thesis by (auto dest: poll_children_keeps)
    qed
    from k0 add_next_active_poll(1) [OF a1] add_next_to_poll_poll(1) [OF a2] k3 k4
    show ?thesis by (blast intro: poll_keeps_trans)
  qed
qed

lemma poller_inv_child_buf [simp]: "poller_inv (st\<lparr>child_buf := b\<rparr>) = poller_inv st"
  by (simp add: poller_inv_def)

lemma poll_grows_child_buf: "poller_inv st \<Longrightarrow> poll_grows st (st\<lparr>child_buf := b\<rparr>)"
  by (simp add: poll_grows_def)

lemma poll_current_grows:
  assumes "poll_current os c st w = Ok st' w'" and "poller_inv st"
  shows "poll_grows st st'"
proof -
  from assms obtain a w1 where al: "pid_is_alive os c w = Ok a w1"
    and r1: "(if \<not> a then Ok st w1 else
      res_bind (add_next_active os c st w1)
              (\<lambda>st1 w2.
                 res_bind (add_next_to_poll os c st1 w2)
                   (\<lambda>st2 w3.
                      res_bind (list_children os c (child_buf st2) w3)
                        (\<lambda>(rc, children, child_count, b) w4.
                           let st3 = st2\<lparr>child_buf := b\<rparr> in
                           if rc \<noteq> 0 then Ok st3 (perror ''proc_listchildpids'' w4)
                           else poll_children os children child_count 0 st3 w4)))) = Ok st' w'"
    by (auto simp: poll_current_def res_bind_eq_Ok)
  show ?thesis
  proof (cases a)
    case False
    with r1 assms(2) show ?thesis by (simp add: poll_grows_refl)
  next
    case True
    with r1 obtain st1 w2 st2 w3 rc children n b w4 where
      a1: "add_next_active os c st w1 = Ok st1 w2"
      and a2: "add_next_to_poll os c st1 w2 = Ok st2 w3"
      and l: "list_children os c (child_buf st2) w3 = Ok (rc, children, n, b) w4"
      and r2: "(if rc \<noteq> 0 then Ok (st2\<lparr>child_buf := b\<rparr>) (perror ''proc_listchildpids'' w4)
                else poll_children os children n 0 (st2\<lparr>child_buf := b\<rparr>) w4) = Ok st' w'"
      by (auto simp: res_bind_eq_Ok Let_def)
    from add_next_active_poll(2) [OF a1 assms(2)] have g1: "poll_grows st st1" .
    then have "poller_inv st1" by (simp add: poll_grows_def)
    from add_next_to_poll_poll(2) [OF a2 this] have g2: "poll_grows st1 st2" .
    then have i2: "poller_inv st2" by (simp add: poll_grows_def)
    then have g3: "poll_grows st2 (st2\<lparr>child_buf := b\<rparr>)" by (rule poll_grows_child_buf)
    have g4: "poll_grows (st2\<lparr>child_buf := b\<rparr>) st'"
    proof (cases "rc \<noteq> 0")
      case True
      with r2 i2 show ?thesis by (auto simp: poll_grows_refl)
    next
      case False
      with r2 i2 show ?thesis by (auto dest: poll_children_grows)
    qed
    from g1 g2 g3 g4 show ?thesis by (blast intro: poll_grows_trans)
  qed
qed

lemma poll_current_to_poll:
  "poll_current os c st w = Ok st' w' \<Longrightarrow> to_poll st' = to_poll st"
  by (drule poll_current_keeps) (simp add: poll_keeps_def)

text \<open>The loop over the frontier, lines 160 to 189.\<close>

function poll_frontier :: "os \<Rightarrow> nat \<Rightarrow> poller \<Rightarrow> world \<Rightarrow> poller res" where
  "poll_frontier os i st w =
     (if i < count (to_poll st) then
        res_bind (poll_current os (data (to_poll st) ! i) st w)
          (\<lambda>st' w'. poll_frontier os (Suc i) st' w')
      else Ok st w)"
  by pat_completeness auto
termination
  by (relation "measure (\<lambda>(os, i, st, w). count (to_poll st) - i)")
    (auto dest: poll_current_to_poll)

declare poll_frontier.simps [simp del]

lemma poll_frontier_keeps:
  "poll_frontier os i st w = Ok st' w' \<Longrightarrow> poll_keeps st w st' w'"
proof (induction os i st w rule: poll_frontier.induct)
  case (1 os i st w)
  show ?case
  proof (cases "i < count (to_poll st)")
    case False
    with "1.prems" show ?thesis by (simp add: poll_frontier.simps [of _ i])
  next
    case True
    with "1.prems" obtain st1 w1 where
      b: "poll_current os (data (to_poll st) ! i) st w = Ok st1 w1"
      and r: "poll_frontier os (Suc i) st1 w1 = Ok st' w'"
      by (auto simp: poll_frontier.simps [of _ i] res_bind_eq_Ok)
    from "1.IH" [OF True b r] poll_current_keeps [OF b] show ?thesis
      by (blast intro: poll_keeps_trans)
  qed
qed

lemma poll_frontier_grows:
  "poll_frontier os i st w = Ok st' w' \<Longrightarrow> poller_inv st \<Longrightarrow> poll_grows st st'"
proof (induction os i st w rule: poll_frontier.induct)
  case (1 os i st w)
  show ?case
  proof (cases "i < count (to_poll st)")
    case False
    with "1.prems" show ?thesis by (simp add: poll_frontier.simps [of _ i] poll_grows_refl)
  next
    case True
    with "1.prems" obtain st1 w1 where
      b: "poll_current os (data (to_poll st) ! i) st w = Ok st1 w1"
      and r: "poll_frontier os (Suc i) st1 w1 = Ok st' w'"
      by (auto simp: poll_frontier.simps [of _ i] res_bind_eq_Ok)
    from poll_current_grows [OF b "1.prems"(2)] have g: "poll_grows st st1" .
    then have "poller_inv st1" by (simp add: poll_grows_def)
    from "1.IH" [OF True b r this] g show ?thesis
      by (blast intro: poll_grows_trans)
  qed
qed

text \<open>
  One turn of the \<open>while\<close> loop of \<open>main\<close>, lines 150 to 204. The flag of the result
  says that the turn ended in \<open>break\<close>.
\<close>

definition poll_cycle :: "os \<Rightarrow> pid \<Rightarrow> poller \<Rightarrow> world \<Rightarrow> (bool \<times> poller) res" where
  "poll_cycle os child st w =
     res_bind
       (if \<not> child_exited st then
          res_bind (waitpid os child True w)
            (\<lambda>res w1. Ok (if wait_result res = child
                           then st\<lparr>child_exited := True\<rparr> else st) w1)
        else Ok st w)
       (\<lambda>st1 w1.
          res_bind
            (poll_frontier os 0
               (st1\<lparr>next_active := pid_set_clear (next_active st1),
                    next_to_poll := pid_set_clear (next_to_poll st1)\<rparr>) w1)
            (\<lambda>st2 w2.
               let (a, na) = pid_set_swap (active st2, next_active st2);
                   (tp, ntp) = pid_set_swap (to_poll st2, next_to_poll st2);
                   st3 = st2\<lparr>active := a, next_active := pid_set_clear na,
                             to_poll := tp, next_to_poll := pid_set_clear ntp\<rparr>
               in if child_exited st3 \<and> count (active st3) = 0 then Ok (True, st3) w2
                  else
                    (let delay = (if 0 < warmup_iterations st3 then 100 else 5000);
                         st4 = (if 0 < warmup_iterations st3
                                then st3\<lparr>warmup_iterations := warmup_iterations st3 - 1\<rparr>
                                else st3)
                     in Ok (False, st4) (usleep delay w2))))"

text \<open>
  The \<open>while\<close> loop for at most \<open>n\<close> turns: the state reached, and whether the loop has
  ended (by its condition or by \<open>break\<close>).
\<close>

fun poll_loop :: "os \<Rightarrow> pid \<Rightarrow> nat \<Rightarrow> poller \<Rightarrow> world \<Rightarrow> (bool \<times> poller) res" where
  "poll_loop os child 0 st w = Ok (\<not> (\<not> child_exited st \<or> 0 < count (active st)), st) w"
| "poll_loop os child (Suc n) st w =
     (if \<not> child_exited st \<or> 0 < count (active st) then
        res_bind (poll_cycle os child st w)
          (\<lambda>(brk, st') w'. if brk then Ok (True, st') w' else poll_loop os child n st' w')
      else Ok (True, st) w)"

text \<open>The state and the world when \<open>main\<close> begins.\<close>

definition world_zero :: world where
  "world_zero = \<lparr>clock = 0, errlog = [], reaped = [], printed = []\<rparr>"

definition poller_zero :: poller where
  "poller_zero =
     \<lparr>seen = pid_set_zero, active = pid_set_zero, child_buf = child_buffer_zero,
      child_exited = False, next_active = pid_set_zero, to_poll = pid_set_zero,
      next_to_poll = pid_set_zero, warmup_iterations = 200\<rparr>"

text \<open>
  \<open>main\<close> of \<open>track_descendants.c\<close> from line 141 on, in the process where \<open>fork\<close>
  returned \<open>child\<close>: the three insertions and the loop, for at most \<open>n\<close> turns.
\<close>

definition poll_run :: "os \<Rightarrow> pid \<Rightarrow> nat \<Rightarrow> (bool \<times> poller) res" where
  "poll_run os child n =
     res_bind (add_seen os child poller_zero world_zero)
       (\<lambda>st1 w1.
          res_bind (add_active os child st1 w1)
            (\<lambda>st2 w2.
               res_bind (add_to_poll os child st2 w2)
                 (\<lambda>st3 w3. poll_loop os child n st3 w3)))"

text \<open>
  \<open>main\<close> of \<open>track_descendants.c\<close>. \<open>argc\<close> and the result of \<open>fork\<close> are inputs; the
  model follows the parent process, and in the forked child (\<open>child = 0\<close>) only the
  case that \<open>execvp\<close> returns. \<open>Ok c\<close> is \<open>return c\<close>.
\<close>

definition track_descendants_main :: "os \<Rightarrow> nat \<Rightarrow> int \<Rightarrow> pid \<Rightarrow> nat res" where
  "track_descendants_main os n argc child =
     (if argc < 2 then Ok 1 (perror ''usage'' world_zero)
      else if child < 0 then Ok 1 (perror ''fork'' world_zero)
      else if child = 0 then Exit 127 (perror ''execvp'' world_zero)
      else
        res_bind (poll_run os child n)
          (\<lambda>(finished, st) w.
             if \<not> finished then OutOfFuel
             else
               res_bind
                 (if \<not> child_exited st
                  then res_bind (waitpid os child False w) (\<lambda>res w1. Ok () w1)
                  else Ok () w)
                 (\<lambda>u w1. Ok 0 (print_from (seen st) 0 w1))))"

subsection \<open>Facts about the polling engine\<close>

lemma print_from_eq:
  "pid_set_wf s \<Longrightarrow> print_from s i w = w\<lparr>printed := printed w @ drop i (elems s)\<rparr>"
proof (induction s i w rule: print_from.induct)
  case (1 s i w)
  show ?case
  proof (cases "i < count s")
    case False
    with "1.prems" show ?thesis
      by (simp add: print_from.simps [of s i] elems_def)
  next
    case True
    with "1.prems" have "drop i (elems s) = data s ! i # drop (Suc i) (elems s)"
      by (simp add: elems_def pid_set_wf_def Cons_nth_drop_Suc [symmetric])
    with True "1.IH" [OF True "1.prems"] show ?thesis
      by (simp add: print_from.simps [of s i])
  qed
qed

lemma waitpid_Ok:
  "waitpid os p h w = Ok r w' \<Longrightarrow>
   printed w' = printed w \<and> errlog w' = errlog w \<and>
   (\<exists>xs. reaped w' = reaped w @ xs) \<and> (0 < p \<and> wait_result r = p \<longrightarrow> p \<in> set (reaped w'))"
  by (auto simp: waitpid_def Let_def wait_result_def split: sum.splits)

lemma poll_cycle_Ok:
  assumes "poll_cycle os child st w = Ok (brk, st') w'" and "poller_inv st"
  shows "poller_inv st'" and "prefix (elems (seen st)) (elems (seen st'))"
    and "printed w' = printed w"
    and "0 < child \<Longrightarrow> child_exited st \<longrightarrow> child \<in> set (reaped w) \<Longrightarrow>
         child_exited st' \<longrightarrow> child \<in> set (reaped w')"
    and "brk \<longleftrightarrow> child_exited st' \<and> count (active st') = 0"
proof -
  from assms(1) obtain st1 w1 st2 w2 where
    s1: "(if \<not> child_exited st then
          res_bind (waitpid os child True w)
            (\<lambda>res w1. Ok (if wait_result res = child
                           then st\<lparr>child_exited := True\<rparr> else st) w1)
        else Ok st w) = Ok st1 w1"
    and fr: "poll_frontier os 0
               (st1\<lparr>next_active := pid_set_clear (next_active st1),
                    next_to_poll := pid_set_clear (next_to_poll st1)\<rparr>) w1 = Ok st2 w2"
    and fin: "(let (a, na) = pid_set_swap (active st2, next_active st2);
                   (tp, ntp) = pid_set_swap (to_poll st2, next_to_poll st2);
                   st3 = st2\<lparr>active := a, next_active := pid_set_clear na,
                             to_poll := tp, next_to_poll := pid_set_clear ntp\<rparr>
               in if child_exited st3 \<and> count (active st3) = 0 then Ok (True, st3) w2
                  else
                    (let delay = (if 0 < warmup_iterations st3 then 100 else 5000);
                         st4 = (if 0 < warmup_iterations st3
                                then st3\<lparr>warmup_iterations := warmup_iterations st3 - 1\<rparr>
                                else st3)
                     in Ok (False, st4) (usleep delay w2))) = Ok (brk, st') w'"
    unfolding poll_cycle_def res_bind_eq_Ok by blast
  let ?st1' = "st1\<lparr>next_active := pid_set_clear (next_active st1),
                    next_to_poll := pid_set_clear (next_to_poll st1)\<rparr>"
  from s1 have e1: "seen st1 = seen st" "active st1 = active st" "next_active st1 = next_active st"
    "to_poll st1 = to_poll st" "next_to_poll st1 = next_to_poll st" "printed w1 = printed w"
    by (auto simp: res_bind_eq_Ok split: if_splits dest!: waitpid_Ok)
  from s1 have x1: "0 < child \<Longrightarrow> child_exited st \<longrightarrow> child \<in> set (reaped w) \<Longrightarrow>
         child_exited st1 \<longrightarrow> child \<in> set (reaped w1)"
    by (auto simp: res_bind_eq_Ok split: if_splits dest!: waitpid_Ok)
  from e1 assms(2) have i1: "poller_inv ?st1'"
    by (simp add: poller_inv_def clear_inv)
  from poll_frontier_grows [OF fr i1] have g: "poller_inv st2"
    "prefix (elems (seen st)) (elems (seen st2))"
    using e1 by (simp_all add: poll_grows_def)
  from poll_frontier_keeps [OF fr] have k: "child_exited st2 = child_exited st1"
    "reaped w2 = reaped w1" "printed w2 = printed w1"
    by (simp_all add: poll_keeps_def)
  let ?st3 = "st2\<lparr>active := next_active st2, next_active := pid_set_clear (active st2),
                 to_poll := next_to_poll st2, next_to_poll := pid_set_clear (to_poll st2)\<rparr>"
  from g(1) have i3: "poller_inv ?st3" by (simp add: poller_inv_def clear_inv)
  from fin have st': "st' = ?st3 \<or> st' = ?st3\<lparr>warmup_iterations := warmup_iterations ?st3 - 1\<rparr>"
    and w': "w' = w2 \<or> w' = usleep (if 0 < warmup_iterations ?st3 then 100 else 5000) w2"
    and b: "brk \<longleftrightarrow> child_exited ?st3 \<and> count (active ?st3) = 0"
    by (auto simp: Let_def split: if_splits)
  from st' i3 show "poller_inv st'" by (auto simp: poller_inv_def)
  from st' g(2) show "prefix (elems (seen st)) (elems (seen st'))" by auto
  from w' k e1 show "printed w' = printed w" by (auto simp: usleep_def)
  from st' b show "brk \<longleftrightarrow> child_exited st' \<and> count (active st') = 0" by auto
  show "child_exited st' \<longrightarrow> child \<in> set (reaped w')"
    if "0 < child" "child_exited st \<longrightarrow> child \<in> set (reaped w)"
    using x1 [OF that] st' w' k by (auto simp: usleep_def)
qed

lemma poll_loop_Ok:
  "poll_loop os child n st w = Ok (fin, st') w' \<Longrightarrow> poller_inv st \<Longrightarrow>
   poller_inv st' \<and> prefix (elems (seen st)) (elems (seen st')) \<and> printed w' = printed w \<and>
   (0 < child \<and> (child_exited st \<longrightarrow> child \<in> set (reaped w)) \<longrightarrow>
      (child_exited st' \<longrightarrow> child \<in> set (reaped w'))) \<and>
   (fin \<longrightarrow> child_exited st' \<and> count (active st') = 0)"
proof (induction n arbitrary: st w)
  case 0
  then show ?case by auto
next
  case (Suc n)
  show ?case
  proof (cases "\<not> child_exited st \<or> 0 < count (active st)")
    case False
    with Suc.prems show ?thesis by auto
  next
    case True
    with Suc.prems(1) obtain brk st1 w1 where
      c: "poll_cycle os child st w = Ok (brk, st1) w1"
      and r: "(if brk then Ok (True, st1) w1 else poll_loop os child n st1 w1) = Ok (fin, st') w'"
      by (auto simp: res_bind_eq_Ok)
    note cy = poll_cycle_Ok [OF c Suc.prems(2)]
    show ?thesis
    proof (cases brk)
      case True
      with r cy show ?thesis by auto
    next
      case False
      with r have "poll_loop os child n st1 w1 = Ok (fin, st') w'" by simp
      from Suc.IH [OF this cy(1)] cy(2,3,4) show ?thesis
        by (auto intro: prefix_order.trans)
    qed
  qed
qed


lemma add_ops_inv:
  "add_seen os p st w = Ok st' w' \<Longrightarrow> poller_inv st \<Longrightarrow> poller_inv st'"
  "add_active os p st w = Ok st' w' \<Longrightarrow> poller_inv st \<Longrightarrow> poller_inv st'"
  "add_to_poll os p st w = Ok st' w' \<Longrightarrow> poller_inv st \<Longrightarrow> poller_inv st'"
  by (auto simp: add_seen_Ok add_active_Ok add_to_poll_def res_bind_eq_Ok poller_inv_def
      dest: add_inv)

lemma add_ops_frame:
  "add_seen os p st w = Ok st' w' \<Longrightarrow>
     child_exited st' = child_exited st \<and> reaped w' = reaped w \<and> printed w' = printed w"
  "add_active os p st w = Ok st' w' \<Longrightarrow>
     child_exited st' = child_exited st \<and> reaped w' = reaped w \<and> printed w' = printed w"
  "add_to_poll os p (st :: poller) w = Ok st' w' \<Longrightarrow>
     child_exited st' = child_exited st \<and> reaped w' = reaped w \<and> printed w' = printed w"
  by (auto simp: add_seen_Ok add_active_Ok add_to_poll_def res_bind_eq_Ok dest: add_world)

lemma poller_zero_inv: "poller_inv poller_zero"
  by (simp add: poller_inv_def poller_zero_def zero_inv)

lemma poll_run_Ok:
  assumes "poll_run os child n = Ok (fin, st) w"
  shows "poller_inv st" and "printed w = []"
    and "0 < child \<Longrightarrow> child_exited st \<Longrightarrow> child \<in> set (reaped w)"
    and "fin \<Longrightarrow> child_exited st \<and> count (active st) = 0"
proof -
  from assms obtain st1 w1 st2 w2 st3 w3 where
    a1: "add_seen os child poller_zero world_zero = Ok st1 w1"
    and a2: "add_active os child st1 w1 = Ok st2 w2"
    and a3: "add_to_poll os child st2 w2 = Ok st3 w3"
    and l: "poll_loop os child n st3 w3 = Ok (fin, st) w"
    by (auto simp: poll_run_def res_bind_eq_Ok)
  from add_ops_inv(1) [OF a1 poller_zero_inv] have "poller_inv st1" .
  from add_ops_inv(2) [OF a2 this] have "poller_inv st2" .
  from add_ops_inv(3) [OF a3 this] have i3: "poller_inv st3" .
  from add_ops_frame(1) [OF a1] add_ops_frame(2) [OF a2] add_ops_frame(3) [OF a3]
  have f3: "\<not> child_exited st3" "printed w3 = []"
    by (simp_all add: poller_zero_def world_zero_def)
  note lo = poll_loop_Ok [OF l i3]
  from lo show "poller_inv st" by simp
  from lo f3 show "printed w = []" by simp
  from lo f3 show "child \<in> set (reaped w)" if "0 < child" "child_exited st"
    using that by simp
  from lo show "child_exited st \<and> count (active st) = 0" if fin using that by simp
qed



subsection \<open>The event-driven engine: \<open>track_kqueue.c\<close>\<close>

text \<open>
  \<open>watch_pid\<close>. The descriptor \<open>kq\<close> is left out: the oracle stands for the one queue
  that \<open>main\<close> opens.
\<close>

definition watch_pid :: "os \<Rightarrow> pid \<Rightarrow> world \<Rightarrow> nat res" where
  "watch_pid os p w =
     (case os_kevent_add os (clock w) p of
        None \<Rightarrow> Ok 0 (tick w)
      | Some e \<Rightarrow> if e = ESRCH then Ok 1 (tick w) else Exit 1 (perror ''kevent'' (tick w)))"

text \<open>
  \<open>ensure_children\<close> and \<open>add_pid_watch\<close> call each other, and nothing in the code
  bounds the depth, so each call and each turn of the loop of \<open>ensure_children\<close>
  (\<open>ensure_loop\<close>, lines 140 to 159) uses one unit of fuel. The loop reads \<open>children[i]\<close>
  from the buffer as it is at that moment: the calls inside the loop list children into
  the same buffer.
\<close>

fun ensure_children :: "os \<Rightarrow> nat \<Rightarrow> pid \<Rightarrow> tracker \<Rightarrow> world \<Rightarrow> tracker res"
  and ensure_loop ::
    "os \<Rightarrow> nat \<Rightarrow> nat option \<Rightarrow> nat \<Rightarrow> nat \<Rightarrow> tracker \<Rightarrow> world \<Rightarrow> tracker res"
  and add_pid_watch :: "os \<Rightarrow> nat \<Rightarrow> pid \<Rightarrow> tracker \<Rightarrow> world \<Rightarrow> tracker res"
where
  "ensure_children os 0 parent st w = OutOfFuel"
| "ensure_children os (Suc n) parent st w =
     res_bind (list_children os parent (child_buf st) w)
       (\<lambda>(rc, children, cnt, b) w1.
          let st1 = st\<lparr>child_buf := b\<rparr> in
          if rc \<noteq> 0 then Ok st1 (perror ''proc_listchildpids'' w1)
          else ensure_loop os n children cnt 0 st1 w1)"
| "ensure_loop os 0 children cnt i st w = OutOfFuel"
| "ensure_loop os (Suc n) children cnt i st w =
     (if i < cnt then
        (case child_at (child_buf st) children i of
           None \<Rightarrow> Fault
         | Some child_pid \<Rightarrow>
             if child_pid \<le> 0 then ensure_loop os n children cnt (Suc i) st w
             else
               (let already_seen = pid_set_contains (seen st) child_pid;
                    is_active = pid_set_contains (active st) child_pid
                in if \<not> already_seen then
                     res_bind (add_pid_watch os n child_pid st w)
                       (\<lambda>st' w'. ensure_loop os n children cnt (Suc i) st' w')
                   else if \<not> is_active then
                     res_bind (add_active os child_pid st w)
                       (\<lambda>st1 w1.
                          res_bind (watch_pid os child_pid w1)
                            (\<lambda>r w2.
                               if r = 1 then
                                 ensure_loop os n children cnt (Suc i)
                                   (st1\<lparr>active := pid_set_remove (active st1) child_pid\<rparr>) w2
                               else
                                 res_bind (ensure_children os n child_pid st1 w2)
                                   (\<lambda>st' w'. ensure_loop os n children cnt (Suc i) st' w')))
                   else ensure_loop os n children cnt (Suc i) st w))
      else Ok st w)"
| "add_pid_watch os 0 p st w = OutOfFuel"
| "add_pid_watch os (Suc n) p st w =
     (if p \<le> 0 then Ok st w
      else
        (let already_seen = pid_set_contains (seen st) p in
         res_bind (if \<not> already_seen then add_seen os p st w else Ok st w)
           (\<lambda>st1 w1.
              if \<not> pid_set_contains (active st1) p then
                res_bind (add_active os p st1 w1)
                  (\<lambda>st2 w2.
                     res_bind (watch_pid os p w2)
                       (\<lambda>r w3.
                          if r = 1 then Ok (st2\<lparr>active := pid_set_remove (active st2) p\<rparr>) w3
                          else if \<not> already_seen then ensure_children os n p st2 w3
                          else Ok st2 w3))
              else if \<not> already_seen then ensure_children os n p st1 w1
              else Ok st1 w1)))"

text \<open>
  The invariant of the two sets, and what a call of \<open>ensure_children\<close> or
  \<open>add_pid_watch\<close> does to the state: it keeps \<open>child_exited\<close>, reaps and prints
  nothing, keeps the invariant, and only makes the seen set longer at its end.
\<close>

definition tracker_inv :: "tracker \<Rightarrow> bool" where
  "tracker_inv st = (pid_set_inv (seen st) \<and> pid_set_inv (active st))"

definition kq_step :: "tracker \<Rightarrow> world \<Rightarrow> tracker \<Rightarrow> world \<Rightarrow> bool" where
  "kq_step st w st' w' =
     (child_exited st' = child_exited st \<and> reaped w' = reaped w \<and> printed w' = printed w \<and>
      (tracker_inv st \<longrightarrow> tracker_inv st' \<and> prefix (elems (seen st)) (elems (seen st'))))"

lemma kq_step_refl [simp]: "kq_step st w st w"
  by (simp add: kq_step_def)

lemma kq_step_trans:
  "kq_step st w st1 w1 \<Longrightarrow> kq_step st1 w1 st2 w2 \<Longrightarrow> kq_step st w st2 w2"
  by (auto simp: kq_step_def)

lemma add_seen_kq: "add_seen os p st w = Ok st' w' \<Longrightarrow> kq_step st w st' w'"
  by (auto simp: add_seen_Ok kq_step_def tracker_inv_def pid_set_inv_def
      dest: add_world add_inv add_prefix add_Ok)

lemma add_active_kq: "add_active os p st w = Ok st' w' \<Longrightarrow> kq_step st w st' w'"
  by (auto simp: add_active_Ok kq_step_def tracker_inv_def dest: add_world add_inv)

lemma watch_pid_kq: "watch_pid os p w = Ok r w' \<Longrightarrow> kq_step st w st w'"
  by (auto simp: watch_pid_def kq_step_def split: option.splits if_splits)

lemma remove_kq: "kq_step st w (st\<lparr>active := pid_set_remove (active st) p\<rparr>) w"
  by (simp add: kq_step_def tracker_inv_def remove_inv)

lemma child_buf_kq:
  "list_children os p (child_buf st) w = Ok (rc, ch, n, b) w' \<Longrightarrow>
   kq_step st w (st\<lparr>child_buf := b\<rparr>) w' \<and>
   kq_step st w (st\<lparr>child_buf := b\<rparr>) (perror m w')"
  by (auto simp: kq_step_def tracker_inv_def dest: list_children_world)

lemma kq_recursion_step:
  "(\<forall>parent st w st' w'. ensure_children os n parent st w = Ok st' w' \<longrightarrow> kq_step st w st' w') \<and>
   (\<forall>children cnt i st w st' w'.
      ensure_loop os n children cnt i st w = Ok st' w' \<longrightarrow> kq_step st w st' w') \<and>
   (\<forall>p st w st' w'. add_pid_watch os n p st w = Ok st' w' \<longrightarrow> kq_step st w st' w')"
proof (induction n)
  case 0
  show ?case by simp
next
  case (Suc n)
  then have ih_c: "\<And>parent st w st' w'.
      ensure_children os n parent st w = Ok st' w' \<Longrightarrow> kq_step st w st' w'"
    and ih_l: "\<And>children cnt i st w st' w'.
      ensure_loop os n children cnt i st w = Ok st' w' \<Longrightarrow> kq_step st w st' w'"
    and ih_a: "\<And>p st w st' w'. add_pid_watch os n p st w = Ok st' w' \<Longrightarrow> kq_step st w st' w'"
    by blast+
  have c: "kq_step st w st' w'" if "ensure_children os (Suc n) parent st w = Ok st' w'"
    for parent st w st' w'
  proof -
    from that obtain rc ch cnt b w1 where
      l: "list_children os parent (child_buf st) w = Ok (rc, ch, cnt, b) w1"
      and r: "(if rc \<noteq> 0 then Ok (st\<lparr>child_buf := b\<rparr>) (perror ''proc_listchildpids'' w1)
               else ensure_loop os n ch cnt 0 (st\<lparr>child_buf := b\<rparr>) w1) = Ok st' w'"
      by (auto simp: res_bind_eq_Ok Let_def)
    show ?thesis
    proof (cases "rc \<noteq> 0")
      case True
      with r child_buf_kq [OF l] show ?thesis by auto
    next
      case False
      with r have "ensure_loop os n ch cnt 0 (st\<lparr>child_buf := b\<rparr>) w1 = Ok st' w'" by simp
      from ih_l [OF this] child_buf_kq [OF l] show ?thesis by (blast intro: kq_step_trans)
    qed
  qed
  have a: "kq_step st w st' w'" if "add_pid_watch os (Suc n) p st w = Ok st' w'"
    for p st w st' w'
  proof (cases "p \<le> 0")
    case True
    with that show ?thesis by simp
  next
    case False
    let ?seen = "pid_set_contains (seen st) p"
    from that False obtain st1 w1 where
      s1: "(if \<not> ?seen then add_seen os p st w else Ok st w) = Ok st1 w1"
      and r: "(if \<not> pid_set_contains (active st1) p then
                res_bind (add_active os p st1 w1)
                  (\<lambda>st2 w2.
                     res_bind (watch_pid os p w2)
                       (\<lambda>r w3.
                          if r = 1 then Ok (st2\<lparr>active := pid_set_remove (active st2) p\<rparr>) w3
                          else if \<not> ?seen then ensure_children os n p st2 w3
                          else Ok st2 w3))
              else if \<not> ?seen then ensure_children os n p st1 w1
              else Ok st1 w1) = Ok st' w'"
      by (auto simp: res_bind_eq_Ok Let_def)
    from s1 have k1: "kq_step st w st1 w1"
      by (auto split: if_splits dest: add_seen_kq)
    have k2: "kq_step st1 w1 st' w'"
    proof (cases "pid_set_contains (active st1) p")
      case True
      with r show ?thesis by (auto split: if_splits dest: ih_c)
    next
      case False
      with r obtain st2 w2 rr w3 where
        a2: "add_active os p st1 w1 = Ok st2 w2"
        and wp: "watch_pid os p w2 = Ok rr w3"
        and r2: "(if rr = 1 then Ok (st2\<lparr>active := pid_set_remove (active st2) p\<rparr>) w3
                  else if \<not> ?seen then ensure_children os n p st2 w3
                  else Ok st2 w3) = Ok st' w'"
        by (auto simp: res_bind_eq_Ok)
      have "kq_step st2 w3 st' w'"
        using r2 by (auto split: if_splits dest: ih_c intro: remove_kq)
      with add_active_kq [OF a2] watch_pid_kq [OF wp, of st2] show ?thesis
        by (blast intro: kq_step_trans)
    qed
    from k1 k2 show ?thesis by (rule kq_step_trans)
  qed
  have l: "kq_step st w st' w'" if "ensure_loop os (Suc n) children cnt i st w = Ok st' w'"
    for children cnt i st w st' w'
  proof (cases "i < cnt")
    case False
    with that show ?thesis by simp
  next
    case True
    with that obtain c where c: "child_at (child_buf st) children i = Some c"
      by (auto split: option.splits)
    show ?thesis
    proof (cases "c \<le> 0")
      case True
      with that \<open>i < cnt\<close> c show ?thesis by (auto dest: ih_l)
    next
      case False
      note pos = this
      show ?thesis
      proof (cases "pid_set_contains (seen st) c")
        case False
        with that \<open>i < cnt\<close> c pos obtain st1 w1 where
          "add_pid_watch os n c st w = Ok st1 w1"
          "ensure_loop os n children cnt (Suc i) st1 w1 = Ok st' w'"
          by (auto simp: res_bind_eq_Ok Let_def)
        then show ?thesis by (blast intro: kq_step_trans dest: ih_a ih_l)
      next
        case True
        note sn = this
        show ?thesis
        proof (cases "pid_set_contains (active st) c")
          case True
          with that \<open>i < cnt\<close> c pos sn show ?thesis by (auto dest: ih_l)
        next
          case False
          with that \<open>i < cnt\<close> c pos sn obtain st1 w1 rr w2 where
            a1: "add_active os c st w = Ok st1 w1"
            and wp: "watch_pid os c w1 = Ok rr w2"
            and r: "(if rr = 1 then
                       ensure_loop os n children cnt (Suc i)
                         (st1\<lparr>active := pid_set_remove (active st1) c\<rparr>) w2
                     else
                       res_bind (ensure_children os n c st1 w2)
                         (\<lambda>st' w'. ensure_loop os n children cnt (Suc i) st' w')) = Ok st' w'"
            by (auto simp: res_bind_eq_Ok Let_def)
          have "kq_step st1 w2 st' w'"
          proof (cases "rr = 1")
            case True
            with r have "ensure_loop os n children cnt (Suc i)
                (st1\<lparr>active := pid_set_remove (active st1) c\<rparr>) w2 = Ok st' w'" by simp
            from ih_l [OF this] remove_kq [of st1 w2 c] show ?thesis
              by (blast intro: kq_step_trans)
          next
            case False
            with r obtain st2 w3 where "ensure_children os n c st1 w2 = Ok st2 w3"
              "ensure_loop os n children cnt (Suc i) st2 w3 = Ok st' w'"
              by (auto simp: res_bind_eq_Ok)
            then show ?thesis by (blast intro: kq_step_trans dest: ih_c ih_l)
          qed
          with add_active_kq [OF a1] watch_pid_kq [OF wp, of st1] show ?thesis
            by (blast intro: kq_step_trans)
        qed
      qed
    qed
  qed
  from c l a show ?case by blast
qed

text \<open>
  The body of the loop over the events, lines 253 to 278, and the loop. \<open>mark_exit\<close> is
  \<open>pid_set_remove(&active, pid); if (pid == child) child_exited = true;\<close>.
\<close>

definition mark_exit :: "pid \<Rightarrow> pid \<Rightarrow> tracker \<Rightarrow> tracker" where
  "mark_exit child p st =
     st\<lparr>active := pid_set_remove (active st) p,
        child_exited := (if p = child then True else child_exited st)\<rparr>"

definition handle_event :: "os \<Rightarrow> nat \<Rightarrow> pid \<Rightarrow> kevent \<Rightarrow> tracker \<Rightarrow> world \<Rightarrow> tracker res" where
  "handle_event os n child ev st w =
     (let p = ident ev in
      if ev_error ev then
        (if ev_data ev = ESRCH then Ok (mark_exit child p st) w
         else Ok st (perror ''kevent event'' w))
      else
        res_bind (if note_fork ev then ensure_children os n p st w else Ok st w)
          (\<lambda>st1 w1. Ok (if note_exit ev then mark_exit child p st1 else st1) w1))"

fun handle_events ::
  "os \<Rightarrow> nat \<Rightarrow> pid \<Rightarrow> kevent list \<Rightarrow> tracker \<Rightarrow> world \<Rightarrow> tracker res"
where
  "handle_events os n child [] st w = Ok st w"
| "handle_events os n child (ev # evs) st w =
     res_bind (handle_event os n child ev st w)
       (\<lambda>st' w'. handle_events os n child evs st' w')"

text \<open>
  One turn of the \<open>while\<close> loop of \<open>main\<close>, lines 223 to 286: how the turn ends and the
  state. \<open>kq_events\<close> is the turn from the \<open>kevent\<close> call on.
\<close>

datatype ctl = Continue | Break

definition kq_events :: "os \<Rightarrow> nat \<Rightarrow> pid \<Rightarrow> tracker \<Rightarrow> world \<Rightarrow> (ctl \<times> tracker) res" where
  "kq_events os n child st w =
     (case os_kevent_wait os (clock w) of
        Inl e \<Rightarrow>
          if e = EINTR then Ok (Continue, st) (tick w)
          else Ok (Break, st) (perror ''kevent'' (tick w))
      | Inr events \<Rightarrow>
          res_bind (handle_events os n child (take 32 events) st (tick w))
            (\<lambda>st1 w1.
               if \<not> child_exited st1 then
                 res_bind (waitpid os child True w1)
                   (\<lambda>res w2. Ok (Continue, if wait_result res = child
                                            then st1\<lparr>child_exited := True\<rparr> else st1) w2)
               else Ok (Continue, st1) w1))"

definition kq_cycle :: "os \<Rightarrow> nat \<Rightarrow> pid \<Rightarrow> tracker \<Rightarrow> world \<Rightarrow> (ctl \<times> tracker) res" where
  "kq_cycle os n child st w =
     (if \<not> child_exited st \<and> count (active st) = 0 then
        res_bind (waitpid os child False w)
          (\<lambda>res w1.
             if wait_result res = child then Ok (Break, st\<lparr>child_exited := True\<rparr>) w1
             else
               (case res of
                  Inl e \<Rightarrow>
                    if e = EINTR then Ok (Continue, st) w1
                    else if e = ECHILD then Ok (Break, st\<lparr>child_exited := True\<rparr>) w1
                    else Ok (Break, st) (perror ''waitpid'' w1)
                | Inr q \<Rightarrow> kq_events os n child st w1))
      else kq_events os n child st w)"

text \<open>
  The \<open>while\<close> loop for at most \<open>n\<close> turns: the state reached, and whether the loop has
  ended (by its condition or by \<open>break\<close>). \<open>d\<close> is the fuel of each call of
  \<open>ensure_children\<close>.
\<close>

fun kq_loop :: "os \<Rightarrow> pid \<Rightarrow> nat \<Rightarrow> nat \<Rightarrow> tracker \<Rightarrow> world \<Rightarrow> (bool \<times> tracker) res" where
  "kq_loop os child d 0 st w = Ok (\<not> (\<not> child_exited st \<or> 0 < count (active st)), st) w"
| "kq_loop os child d (Suc n) st w =
     (if \<not> child_exited st \<or> 0 < count (active st) then
        res_bind (kq_cycle os d child st w)
          (\<lambda>(c, st') w'. if c = Break then Ok (True, st') w' else kq_loop os child d n st' w')
      else Ok (True, st) w)"

text \<open>The last \<open>waitpid\<close> loop, lines 290 to 295.\<close>

fun reap_loop :: "os \<Rightarrow> nat \<Rightarrow> pid \<Rightarrow> world \<Rightarrow> unit res" where
  "reap_loop os 0 child w = OutOfFuel"
| "reap_loop os (Suc n) child w =
     res_bind (waitpid os child False w)
       (\<lambda>res w1.
          case res of
            Inl e \<Rightarrow> if e \<noteq> EINTR then Ok () (perror ''waitpid'' w1) else reap_loop os n child w1
          | Inr q \<Rightarrow> Ok () w1)"

definition tracker_zero :: tracker where
  "tracker_zero =
     \<lparr>seen = pid_set_zero, active = pid_set_zero, child_buf = child_buffer_zero,
      child_exited = False\<rparr>"

text \<open>
  \<open>main\<close> of \<open>track_kqueue.c\<close> from line 217 on: \<open>add_pid_watch\<close> for the command, the
  first value of \<open>child_exited\<close>, and the loop for at most \<open>n\<close> turns.
\<close>

definition kq_run :: "os \<Rightarrow> pid \<Rightarrow> nat \<Rightarrow> nat \<Rightarrow> (bool \<times> tracker) res" where
  "kq_run os child d n =
     res_bind (add_pid_watch os d child tracker_zero world_zero)
       (\<lambda>st1 w1.
          kq_loop os child d n
            (st1\<lparr>child_exited := \<not> pid_set_contains (active st1) child\<rparr>) w1)"

text \<open>
  \<open>main\<close> of \<open>track_kqueue.c\<close>. \<open>argc\<close> and the results of \<open>fork\<close> and \<open>kqueue\<close> are
  inputs; as for the polling engine, the model follows the parent process.
\<close>

definition track_kqueue_main :: "os \<Rightarrow> nat \<Rightarrow> nat \<Rightarrow> int \<Rightarrow> pid \<Rightarrow> int \<Rightarrow> nat res" where
  "track_kqueue_main os d n argc child kq =
     (if argc < 2 then Ok 1 (perror ''usage'' world_zero)
      else if child < 0 then Ok 1 (perror ''fork'' world_zero)
      else if child = 0 then Exit 127 (perror ''execvp'' world_zero)
      else if kq < 0 then Ok 1 (perror ''kqueue'' world_zero)
      else
        res_bind (kq_run os child d n)
          (\<lambda>(finished, st) w.
             if \<not> finished then OutOfFuel
             else
               res_bind (if \<not> child_exited st then reap_loop os n child w else Ok () w)
                 (\<lambda>u w1. Ok 0 (print_from (seen st) 0 w1))))"

subsection \<open>Facts about the event-driven engine\<close>

definition kq_turn :: "tracker \<Rightarrow> world \<Rightarrow> tracker \<Rightarrow> world \<Rightarrow> bool" where
  "kq_turn st w st' w' =
     (printed w' = printed w \<and>
      (tracker_inv st \<longrightarrow> tracker_inv st' \<and> prefix (elems (seen st)) (elems (seen st'))))"

lemma kq_turn_refl [simp]: "kq_turn st w st w"
  by (simp add: kq_turn_def)

lemma kq_turn_trans:
  "kq_turn st w st1 w1 \<Longrightarrow> kq_turn st1 w1 st2 w2 \<Longrightarrow> kq_turn st w st2 w2"
  by (auto simp: kq_turn_def)

lemma kq_step_turn: "kq_step st w st' w' \<Longrightarrow> kq_turn st w st' w'"
  by (simp add: kq_step_def kq_turn_def)

lemma mark_exit_turn: "kq_turn st w (mark_exit child p st) w"
  by (simp add: kq_turn_def mark_exit_def tracker_inv_def remove_inv)

lemma exited_turn: "kq_turn st w (st\<lparr>child_exited := b\<rparr>) w"
  by (simp add: kq_turn_def tracker_inv_def)

lemma world_turn: "printed w' = printed w \<Longrightarrow> kq_turn st w st w'"
  by (simp add: kq_turn_def)

lemma handle_event_turn:
  assumes "handle_event os d child ev st w = Ok st' w'"
  shows "kq_turn st w st' w'"
proof (cases "ev_error ev")
  case True
  with assms show ?thesis
    by (auto simp: handle_event_def Let_def mark_exit_turn world_turn split: if_splits)
next
  case False
  with assms obtain st1 where
    f: "(if note_fork ev then ensure_children os d (ident ev) st w else Ok st w) = Ok st1 w'"
    and e: "st' = (if note_exit ev then mark_exit child (ident ev) st1 else st1)"
    by (auto simp: handle_event_def Let_def res_bind_eq_Ok)
  from f have "kq_turn st w st1 w'"
    using kq_recursion_step [of os d] by (auto split: if_splits intro: kq_step_turn)
  moreover have "kq_turn st1 w' st' w'" unfolding e by (simp add: mark_exit_turn)
  ultimately show ?thesis by (rule kq_turn_trans)
qed

lemma handle_events_turn:
  "handle_events os d child evs st w = Ok st' w' \<Longrightarrow> kq_turn st w st' w'"
proof (induction evs arbitrary: st w)
  case Nil
  then show ?case by simp
next
  case (Cons ev evs)
  then obtain st1 w1 where "handle_event os d child ev st w = Ok st1 w1"
    "handle_events os d child evs st1 w1 = Ok st' w'"
    by (auto simp: res_bind_eq_Ok)
  with Cons.IH show ?case by (blast intro: kq_turn_trans dest: handle_event_turn)
qed

lemma kq_events_Ok:
  assumes "kq_events os d child st w = Ok (c, st') w'"
  shows "kq_turn st w st' w'" and "c = Break \<Longrightarrow> ''kevent'' \<in> set (errlog w')"
proof -
  have "kq_turn st w st' w' \<and> (c = Break \<longrightarrow> ''kevent'' \<in> set (errlog w'))"
  proof (cases "os_kevent_wait os (clock w)")
    case (Inl e)
    with assms show ?thesis
      by (auto simp: kq_events_def world_turn split: if_splits)
  next
    case (Inr events)
    with assms obtain st1 w1 where
      h: "handle_events os d child (take 32 events) st (tick w) = Ok st1 w1"
      and r: "(if \<not> child_exited st1 then
                 res_bind (waitpid os child True w1)
                   (\<lambda>res w2. Ok (Continue, if wait_result res = child
                                            then st1\<lparr>child_exited := True\<rparr> else st1) w2)
               else Ok (Continue, st1) w1) = Ok (c, st') w'"
      by (auto simp: kq_events_def res_bind_eq_Ok)
    have "kq_turn st w st (tick w)" by (simp add: world_turn)
    moreover note handle_events_turn [OF h]
    moreover from r have "kq_turn st1 w1 st' w'" and "c = Continue"
      by (auto simp: res_bind_eq_Ok kq_turn_def tracker_inv_def split: if_splits
          dest!: waitpid_Ok)
    ultimately show ?thesis by (blast intro: kq_turn_trans)
  qed
  then show "kq_turn st w st' w'" and "c = Break \<Longrightarrow> ''kevent'' \<in> set (errlog w')"
    by simp_all
qed

text \<open>How the loop of the event-driven engine can be left.\<close>

definition kq_left :: "tracker \<Rightarrow> world \<Rightarrow> bool" where
  "kq_left st w =
     (count (active st) = 0 \<and> (child_exited st \<or> ''waitpid'' \<in> set (errlog w)) \<or>
      ''kevent'' \<in> set (errlog w))"

lemma kq_cycle_Ok:
  assumes "kq_cycle os d child st w = Ok (c, st') w'"
  shows "kq_turn st w st' w'" and "c = Break \<Longrightarrow> kq_left st' w'"
proof -
  have "kq_turn st w st' w' \<and> (c = Break \<longrightarrow> kq_left st' w')"
  proof (cases "\<not> child_exited st \<and> count (active st) = 0")
    case False
    with assms have "kq_events os d child st w = Ok (c, st') w'"
      by (auto simp: kq_cycle_def)
    from kq_events_Ok [OF this] show ?thesis by (simp add: kq_left_def)
  next
    case True
    with assms obtain res w1 where
      wp: "waitpid os child False w = Ok res w1"
      and r: "(if wait_result res = child then Ok (Break, st\<lparr>child_exited := True\<rparr>) w1
             else
               (case res of
                  Inl e \<Rightarrow>
                    if e = EINTR then Ok (Continue, st) w1
                    else if e = ECHILD then Ok (Break, st\<lparr>child_exited := True\<rparr>) w1
                    else Ok (Break, st) (perror ''waitpid'' w1)
                | Inr q \<Rightarrow> kq_events os d child st w1)) = Ok (c, st') w'"
      by (auto simp: kq_cycle_def res_bind_eq_Ok)
    from waitpid_Ok [OF wp] have k0: "kq_turn st w st w1" by (simp add: world_turn)
    have "kq_turn st w1 st' w' \<and> (c = Break \<longrightarrow> kq_left st' w')"
    proof (cases "wait_result res = child")
      case True
      with r \<open>\<not> child_exited st \<and> count (active st) = 0\<close> show ?thesis
        by (auto simp: kq_left_def exited_turn)
    next
      case False
      note ne = this
      show ?thesis
      proof (cases res)
        case (Inl e)
        with r ne \<open>\<not> child_exited st \<and> count (active st) = 0\<close> show ?thesis
          by (auto simp: kq_left_def exited_turn world_turn split: if_splits)
      next
        case (Inr q)
        with r ne have "kq_events os d child st w1 = Ok (c, st') w'" by simp
        from kq_events_Ok [OF this] show ?thesis by (simp add: kq_left_def)
      qed
    qed
    with k0 show ?thesis by (blast intro: kq_turn_trans)
  qed
  then show "kq_turn st w st' w'" and "c = Break \<Longrightarrow> kq_left st' w'" by simp_all
qed

lemma kq_loop_Ok:
  "kq_loop os child d n st w = Ok (fin, st') w' \<Longrightarrow>
   kq_turn st w st' w' \<and> (fin \<longrightarrow> kq_left st' w')"
proof (induction n arbitrary: st w)
  case 0
  then show ?case by (auto simp: kq_left_def)
next
  case (Suc n)
  show ?case
  proof (cases "\<not> child_exited st \<or> 0 < count (active st)")
    case False
    with Suc.prems show ?thesis by (auto simp: kq_left_def)
  next
    case True
    with Suc.prems(1) obtain c st1 w1 where
      cy: "kq_cycle os d child st w = Ok (c, st1) w1"
      and r: "(if c = Break then Ok (True, st1) w1 else kq_loop os child d n st1 w1) =
              Ok (fin, st') w'"
      by (auto simp: res_bind_eq_Ok)
    note k = kq_cycle_Ok [OF cy]
    show ?thesis
    proof (cases "c = Break")
      case True
      with r k show ?thesis by auto
    next
      case False
      with r have "kq_loop os child d n st1 w1 = Ok (fin, st') w'" by simp
      from Suc.IH [OF this] k(1) show ?thesis by (blast intro: kq_turn_trans)
    qed
  qed
qed


lemma tracker_zero_inv: "tracker_inv tracker_zero"
  by (simp add: tracker_inv_def tracker_zero_def zero_inv)

lemma kq_run_Ok:
  assumes "kq_run os child d n = Ok (fin, st) w"
  shows "tracker_inv st" and "printed w = []" and "fin \<Longrightarrow> kq_left st w"
proof -
  from assms obtain st1 w1 where
    a: "add_pid_watch os d child tracker_zero world_zero = Ok st1 w1"
    and l: "kq_loop os child d n
              (st1\<lparr>child_exited := \<not> pid_set_contains (active st1) child\<rparr>) w1 = Ok (fin, st) w"
    by (auto simp: kq_run_def res_bind_eq_Ok)
  from a kq_recursion_step [of os d] have "kq_step tracker_zero world_zero st1 w1" by blast
  then have "tracker_inv st1" "printed w1 = []"
    by (simp_all add: kq_step_def tracker_zero_inv world_zero_def)
  then have "tracker_inv (st1\<lparr>child_exited := \<not> pid_set_contains (active st1) child\<rparr>)"
    by (simp add: tracker_inv_def)
  with kq_loop_Ok [OF l] \<open>printed w1 = []\<close>
  show "tracker_inv st" and "printed w = []" and "fin \<Longrightarrow> kq_left st w"
    by (simp_all add: kq_turn_def)
qed



subsection \<open>How a run can end the process\<close>

text \<open>
  \<open>fatal_only msgs r\<close>: if \<open>r\<close> is an exit, its status is 1 and the last line on
  standard error is one of \<open>msgs\<close>.
\<close>

definition fatal_only :: "string list \<Rightarrow> 'a res \<Rightarrow> bool" where
  "fatal_only msgs r =
     (case r of Exit c w \<Rightarrow> c = 1 \<and> errlog w \<noteq> [] \<and> last (errlog w) \<in> set msgs | _ \<Rightarrow> True)"

lemma fatal_only_simps [simp]:
  "fatal_only m (Ok v w)" "fatal_only m Fault" "fatal_only m OutOfFuel"
  by (simp_all add: fatal_only_def)























subsection \<open>Facts about \<open>main\<close>\<close>

lemma reap_loop_Ok: "reap_loop os n child w = Ok u w' \<Longrightarrow> printed w' = printed w"
proof (induction n arbitrary: w)
  case 0
  then show ?case by simp
next
  case (Suc n)
  then obtain res w1 where wp: "waitpid os child False w = Ok res w1"
    and r: "(case res of
            Inl e \<Rightarrow> if e \<noteq> EINTR then Ok () (perror ''waitpid'' w1) else reap_loop os n child w1
          | Inr q \<Rightarrow> Ok () w1) = Ok u w'"
    by (auto simp: res_bind_eq_Ok)
  from waitpid_Ok [OF wp] have "printed w1 = printed w" by simp
  with r Suc.IH show ?case by (auto split: sum.splits if_splits)
qed

lemma poll_main_report:
  assumes "track_descendants_main os n argc child = Ok c w"
  shows "printed w = [] \<or>
         (\<exists>st w0. poll_run os child n = Ok (True, st) w0 \<and> printed w = elems (seen st))"
proof (cases "argc < 2 \<or> child \<le> 0")
  case True
  with assms show ?thesis
    by (auto simp: track_descendants_main_def world_zero_def split: if_splits)
next
  case False
  with assms obtain st w0 w1 where r: "poll_run os child n = Ok (True, st) w0"
    and wt: "(if \<not> child_exited st
                  then res_bind (waitpid os child False w0) (\<lambda>res w1. Ok () w1)
                  else Ok () w0) = Ok () w1"
    and w: "w = print_from (seen st) 0 w1"
    by (auto simp: track_descendants_main_def res_bind_eq_Ok split: if_splits)
  from wt have "printed w1 = printed w0"
    by (auto simp: res_bind_eq_Ok split: if_splits dest!: waitpid_Ok)
  moreover from poll_run_Ok(1,2) [OF r] have "pid_set_wf (seen st)" "printed w0 = []"
    by (simp_all add: poller_inv_def pid_set_inv_def)
  ultimately have "printed w = elems (seen st)"
    by (simp add: w print_from_eq)
  with r show ?thesis by blast
qed

lemma kq_main_report:
  assumes "track_kqueue_main os d n argc child kq = Ok c w"
  shows "printed w = [] \<or>
         (\<exists>st w0. kq_run os child d n = Ok (True, st) w0 \<and> printed w = elems (seen st))"
proof (cases "argc < 2 \<or> child \<le> 0 \<or> kq < 0")
  case True
  with assms show ?thesis
    by (auto simp: track_kqueue_main_def world_zero_def split: if_splits)
next
  case False
  with assms obtain st w0 w1 where r: "kq_run os child d n = Ok (True, st) w0"
    and wt: "(if \<not> child_exited st then reap_loop os n child w0 else Ok () w0) = Ok () w1"
    and w: "w = print_from (seen st) 0 w1"
    by (auto simp: track_kqueue_main_def res_bind_eq_Ok split: if_splits)
  from wt have "printed w1 = printed w0"
    by (auto split: if_splits dest!: reap_loop_Ok)
  moreover from kq_run_Ok(1,2) [OF r] have "pid_set_wf (seen st)" "printed w0 = []"
    by (simp_all add: tracker_inv_def pid_set_inv_def)
  ultimately have "printed w = elems (seen st)"
    by (simp add: w print_from_eq)
  with r show ?thesis by blast
qed

subsection \<open>What a run shows\<close>



text \<open>
  The state in which the main loop was left, when it was left within \<open>n\<close> turns: the
  size of the active set, \<open>child_exited\<close>, the processes reaped and, for the event-driven
  engine, the lines on standard error.
\<close>

definition poll_finished :: "os \<Rightarrow> pid \<Rightarrow> nat \<Rightarrow> (nat \<times> bool \<times> pid list) option" where
  "poll_finished os child n =
     (case poll_run os child n of
        Ok (fin, st) w \<Rightarrow>
          if fin then Some (count (active st), child_exited st, reaped w) else None
      | _ \<Rightarrow> None)"

definition kq_finished ::
  "os \<Rightarrow> pid \<Rightarrow> nat \<Rightarrow> nat \<Rightarrow> (nat \<times> bool \<times> pid list \<times> string list) option"
where
  "kq_finished os child d n =
     (case kq_run os child d n of
        Ok (fin, st) w \<Rightarrow>
          if fin then Some (count (active st), child_exited st, reaped w, errlog w) else None
      | _ \<Rightarrow> None)"

section \<open>Concrete systems and states\<close>

text \<open>
  \<open>os_quiet\<close>: every allocation succeeds, every process is alive and has no children,
  the command is still running, every registration succeeds and no event arrives.
\<close>

definition os_quiet :: os where
  "os_quiet =
     \<lparr>os_alloc = (\<lambda>t n. True),
      os_kill = (\<lambda>t p. None),
      os_listchildpids = (\<lambda>t p n. \<lparr>pr_result = 0, pr_errno = ESRCH, pr_written = []\<rparr>),
      os_waitpid = (\<lambda>t p nohang. Inr 0),
      os_kevent_add = (\<lambda>t p. None),
      os_kevent_wait = (\<lambda>t. Inr [])\<rparr>"

text \<open>Sets as \<open>pid_set_add\<close> builds them: two and three elements, and a full array.\<close>

definition set_of_two :: pid_set where
  "set_of_two = \<lparr>data = [7, 8] @ replicate 14 0, count = 2, capacity = 16\<rparr>"

definition set_of_three :: pid_set where
  "set_of_three = \<lparr>data = [7, 8, 9] @ replicate 13 0, count = 3, capacity = 16\<rparr>"


text \<open>
  \<open>os_family\<close>: the command 100 forks the child 101; both are alive until time 20, and
  the queue reports the fork and then both exits.
\<close>

definition fork_event :: "pid \<Rightarrow> kevent" where
  "fork_event p = \<lparr>ident = p, ev_error = False, ev_data = EOTHER 0, note_fork = True, note_exit = False\<rparr>"

definition exit_event :: "pid \<Rightarrow> kevent" where
  "exit_event p = \<lparr>ident = p, ev_error = False, ev_data = EOTHER 0, note_fork = False, note_exit = True\<rparr>"

definition os_family :: os where
  "os_family =
     \<lparr>os_alloc = (\<lambda>t n. True),
      os_kill = (\<lambda>t p. if t < 20 then None else Some ESRCH),
      os_listchildpids = (\<lambda>t p n.
         if p = 100 \<and> 5 \<le> t then \<lparr>pr_result = 1, pr_errno = ESRCH, pr_written = [101]\<rparr>
         else \<lparr>pr_result = 0, pr_errno = ESRCH, pr_written = []\<rparr>),
      os_waitpid = (\<lambda>t p nohang. if t < 20 then Inr 0 else Inr 100),
      os_kevent_add = (\<lambda>t p. None),
      os_kevent_wait = (\<lambda>t. if t < 10 then Inr [fork_event 100]
                              else Inr [exit_event 101, exit_event 100])\<rparr>"

text \<open>\<open>os_broken_queue\<close>: as \<open>os_quiet\<close>, but retrieving events fails.\<close>

definition os_broken_queue :: os where
  "os_broken_queue =
     \<lparr>os_alloc = (\<lambda>t n. True),
      os_kill = (\<lambda>t p. None),
      os_listchildpids = (\<lambda>t p n. \<lparr>pr_result = 0, pr_errno = ESRCH, pr_written = []\<rparr>),
      os_waitpid = (\<lambda>t p nohang. Inr 100),
      os_kevent_add = (\<lambda>t p. None),
      os_kevent_wait = (\<lambda>t. Inl (EOTHER 9))\<rparr>"




text \<open>
  \<open>os_crowded\<close>: the first listing reports 16 children, as many as the new buffer
  holds, and the second reports 2; and the buffer before the first call, after it, and
  at the end.
\<close>

definition os_crowded :: os where
  "os_crowded =
     \<lparr>os_alloc = (\<lambda>t n. True),
      os_kill = (\<lambda>t p. None),
      os_listchildpids = (\<lambda>t p n.
         if t < 2 then \<lparr>pr_result = 16, pr_errno = ESRCH, pr_written = map int [1..<17]\<rparr>
         else \<lparr>pr_result = 2, pr_errno = ESRCH, pr_written = [7, 8]\<rparr>),
      os_waitpid = (\<lambda>t p nohang. Inr 0),
      os_kevent_add = (\<lambda>t p. None),
      os_kevent_wait = (\<lambda>t. Inr [])\<rparr>"

definition buffer_16 :: child_buffer where
  "buffer_16 = \<lparr>buf_data = Some (replicate 16 0), buf_capacity = 16, buf_block = 1\<rparr>"

definition buffer_16_full :: child_buffer where
  "buffer_16_full = \<lparr>buf_data = Some (map int [1..<17]), buf_capacity = 16, buf_block = 1\<rparr>"

definition buffer_32 :: child_buffer where
  "buffer_32 =
     \<lparr>buf_data = Some ([7, 8] @ map int [3..<17] @ replicate 16 0), buf_capacity = 32,
      buf_block = 2\<rparr>"

text \<open>\<open>os_no_such\<close>: as \<open>os_quiet\<close>, but every listing fails with \<open>ESRCH\<close>.\<close>

definition os_no_such :: os where
  "os_no_such =
     \<lparr>os_alloc = (\<lambda>t n. True),
      os_kill = (\<lambda>t p. None),
      os_listchildpids = (\<lambda>t p n. \<lparr>pr_result = - 1, pr_errno = ESRCH, pr_written = []\<rparr>),
      os_waitpid = (\<lambda>t p nohang. Inr 0),
      os_kevent_add = (\<lambda>t p. None),
      os_kevent_wait = (\<lambda>t. Inr [])\<rparr>"







section \<open>The properties\<close>



text \<open>
  C2, as the code has it. When the loop of the polling engine is left, the active set is
  empty and the command has been reaped. When the loop of the event-driven engine is
  left, either the active set is empty and the command is marked as exited, or the
  active set is empty and a failed \<open>waitpid\<close> was reported, or a failed \<open>kevent\<close> was
  reported. The mark does not say that the command was reaped: an exit event sets it.
\<close>

theorem loop_exit_state:
  "(0 < child \<and> poll_finished os child n = Some (na, ex, rp) \<longrightarrow>
      na = 0 \<and> ex \<and> child \<in> set rp) \<and>
   (kq_finished os' child' d n' = Some (na', ex', rp', lg) \<longrightarrow>
      na' = 0 \<and> (ex' \<or> ''waitpid'' \<in> set lg) \<or> ''kevent'' \<in> set lg)"
proof -
  have "na = 0 \<and> ex \<and> child \<in> set rp"
    if "0 < child" and "poll_finished os child n = Some (na, ex, rp)"
  proof -
    from that(2) obtain st w where r: "poll_run os child n = Ok (True, st) w"
      and v: "na = count (active st)" "ex = child_exited st" "rp = reaped w"
      by (auto simp: poll_finished_def split: res.splits if_splits)
    from poll_run_Ok(3,4) [OF r] that(1) show ?thesis by (simp add: v)
  qed
  moreover have "na' = 0 \<and> (ex' \<or> ''waitpid'' \<in> set lg) \<or> ''kevent'' \<in> set lg"
    if "kq_finished os' child' d n' = Some (na', ex', rp', lg)"
  proof -
    from that obtain st w where r: "kq_run os' child' d n' = Ok (True, st) w"
      and v: "na' = count (active st)" "ex' = child_exited st" "lg = errlog w"
      by (auto simp: kq_finished_def split: res.splits if_splits)
    from kq_run_Ok(3) [OF r] show ?thesis by (simp add: v kq_left_def)
  qed
  ultimately show ?thesis by blast
qed

theorem loop_exit_state_witness:
  "(0 :: pid) < 100 \<and> poll_finished os_family 100 9 = Some (0, True, [100]) \<and>
   (100 :: pid) \<in> set [100] \<and>
   kq_finished os_broken_queue 100 5 1 = Some (1, False, [], [''kevent'']) \<and>
   ''kevent'' \<in> set [''kevent'']"
proof -
  have a: "poll_finished os_family 100 9 = Some (0, True, [100])" by code_simp
  have b: "kq_finished os_broken_queue 100 5 1 = Some (1, False, [], [''kevent''])" by code_simp
  from loop_exit_state [of 100 os_family 9 0 True "[100]" os_broken_queue 100 5 1 1 False "[]"
      "[''kevent'']"] a b
  show ?thesis by simp
qed

text \<open>
  C2 as stated fails for the event-driven engine. With \<open>os_family\<close> the loop is left
  after the exit event of the command, and nothing was reaped, also not when \<open>main\<close>
  returns. With \<open>os_broken_queue\<close> the loop is left with the command still in the
  active set.
\<close>

theorem event_loop_exit_counterexample:
  "kq_finished os_family 100 5 2 = Some (0, True, [], []) \<and>
   track_kqueue_main os_family 5 2 2 100 3 =
     Ok 0 \<lparr>clock = 11, errlog = [], reaped = [], printed = [100, 101]\<rparr> \<and>
   kq_finished os_broken_queue 100 5 1 = Some (1, False, [], [''kevent''])"
  by code_simp

text \<open>
  C3. In the loop of \<open>list_children\<close>, a call that reports at least as many children as
  the buffer has cells, followed by a \<open>realloc\<close> that succeeds, leads to the same loop
  on the buffer doubled; a call that reports fewer ends the loop with that count. Every
  call of \<open>list_children\<close> returns, with a buffer at least as large as before, and a
  return value of 0 comes with a count below the capacity of the buffer.
\<close>

theorem list_children_retries:
  "(\<forall>r b1 w1.
      proc_listchildpids os pid b w = (r, b1, w1) \<and> 0 \<le> sint (pr_result r) \<and>
      buf_capacity b \<le> nat (sint (pr_result r)) \<and>
      os_alloc os (clock w1) (buf_capacity b * 2 * sizeof_pid_t) \<longrightarrow>
      list_children_loop os pid b w =
        list_children_loop os pid (buffer_grown b1 (buf_capacity b * 2)) (tick w1)) \<and>
   (\<forall>r b1 w1.
      proc_listchildpids os pid b w = (r, b1, w1) \<and> 0 \<le> sint (pr_result r) \<and>
      nat (sint (pr_result r)) < buf_capacity b \<longrightarrow>
      list_children_loop os pid b w =
        Some (Ok (0, buf_ptr b1, nat (sint (pr_result r)), b1) w1)) \<and>
   (\<exists>rc children n b' w'.
      list_children os pid b w = Ok (rc, children, n, b') w' \<and>
      buf_capacity b \<le> buf_capacity b' \<and> (rc = 0 \<longrightarrow> n < buf_capacity b'))"
proof (intro conjI allI impI)
  fix r b1 w1
  assume a: "proc_listchildpids os pid b w = (r, b1, w1) \<and> 0 \<le> sint (pr_result r) \<and>
      buf_capacity b \<le> nat (sint (pr_result r)) \<and>
      os_alloc os (clock w1) (buf_capacity b * 2 * sizeof_pid_t)"
  then have c: "proc_listchildpids os pid b w = (r, b1, w1)" by simp
  from a plc_frame(1) [OF c] show "list_children_loop os pid b w =
        list_children_loop os pid (buffer_grown b1 (buf_capacity b * 2)) (tick w1)"
    by (subst list_children_loop.simps) (simp add: Let_def)
next
  fix r b1 w1
  assume a: "proc_listchildpids os pid b w = (r, b1, w1) \<and> 0 \<le> sint (pr_result r) \<and>
      nat (sint (pr_result r)) < buf_capacity b"
  then have c: "proc_listchildpids os pid b w = (r, b1, w1)" by simp
  from a plc_frame(1) [OF c] show "list_children_loop os pid b w =
        Some (Ok (0, buf_ptr b1, nat (sint (pr_result r)), b1) w1)"
    by (subst list_children_loop.simps) (simp add: Let_def)
next
  obtain rc children n b' w' where l: "list_children os pid b w = Ok (rc, children, n, b') w'"
    and ok: "listing_ok b w (Ok (rc, children, n, b') w')"
    by (rule list_children_Ok)
  from ok have "buf_capacity b \<le> buf_capacity b' \<and> (rc = 0 \<longrightarrow> n < buf_capacity b')"
    by (auto simp: listing_ok_def split: if_splits)
  with l show "\<exists>rc children n b' w'.
      list_children os pid b w = Ok (rc, children, n, b') w' \<and>
      buf_capacity b \<le> buf_capacity b' \<and> (rc = 0 \<longrightarrow> n < buf_capacity b')"
    by blast
qed

theorem list_children_retries_witness:
  "proc_listchildpids os_crowded 5 buffer_16 (tick world_zero) =
     (\<lparr>pr_result = 16, pr_errno = ESRCH, pr_written = map int [1..<17]\<rparr>, buffer_16_full,
      tick (tick world_zero)) \<and>
   os_alloc os_crowded (clock (tick (tick world_zero))) (buf_capacity buffer_16 * 2 * sizeof_pid_t) \<and>
   list_children_loop os_crowded 5 buffer_16 (tick world_zero) =
     list_children_loop os_crowded 5 (buffer_grown buffer_16_full (buf_capacity buffer_16 * 2))
       (tick (tick (tick world_zero))) \<and>
   list_children os_crowded 5 child_buffer_zero world_zero =
     Ok (0, Some 2, 2, buffer_32) \<lparr>clock = 4, errlog = [], reaped = [], printed = []\<rparr>"
proof -
  let ?r = "\<lparr>pr_result = 16, pr_errno = ESRCH, pr_written = map int [1..<17]\<rparr>"
  have c: "proc_listchildpids os_crowded 5 buffer_16 (tick world_zero) =
     (?r, buffer_16_full, tick (tick world_zero))"
    by code_simp
  have g: "0 \<le> sint (pr_result ?r)" "buf_capacity buffer_16 \<le> nat (sint (pr_result ?r))"
    by (simp_all add: buffer_16_def)
  have a: "os_alloc os_crowded (clock (tick (tick world_zero)))
      (buf_capacity buffer_16 * 2 * sizeof_pid_t)"
    by (simp add: os_crowded_def)
  have l: "list_children os_crowded 5 child_buffer_zero world_zero =
     Ok (0, Some 2, 2, buffer_32) \<lparr>clock = 4, errlog = [], reaped = [], printed = []\<rparr>"
    by code_simp
  from list_children_retries [of os_crowded 5 buffer_16 "tick world_zero"] c g a l
  show ?thesis by blast
qed







text \<open>
  C6. \<open>pid_set_add\<close> returns the set as it is, with the world as it is, when the PID is
  not positive or is an element already; and after any \<open>pid_set_add\<close> that returned,
  adding the same PID again, under any system, changes nothing: adding twice is adding
  once. The state is any well-formed one, so also the one reached after any sequence of
  insertions.
\<close>

theorem pid_set_add_idempotent:
  assumes "pid_set_wf s"
  shows "(p \<le> 0 \<or> p \<in> set (elems s) \<longrightarrow> pid_set_add os s p w = Ok s w) \<and>
         (\<forall>s' w'. pid_set_add os s p w = Ok s' w' \<longrightarrow>
            (\<forall>os2 w2. pid_set_add os2 s' p w2 = Ok s' w2))"
proof (intro conjI impI allI)
  assume "p \<le> 0 \<or> p \<in> set (elems s)"
  with assms show "pid_set_add os s p w = Ok s w"
    by (simp add: add_noop contains_iff)
next
  fix s' w' os2 w2
  assume a: "pid_set_add os s p w = Ok s' w'"
  from add_Ok(1,2) [OF a assms] have "pid_set_wf s'" "p \<le> 0 \<or> p \<in> set (elems s')"
    by (auto split: if_splits)
  then show "pid_set_add os2 s' p w2 = Ok s' w2"
    by (simp add: add_noop contains_iff)
qed

theorem pid_set_add_idempotent_witness:
  "pid_set_wf set_of_two \<and>
   pid_set_add os_quiet set_of_two 8 world_zero = Ok set_of_two world_zero \<and>
   pid_set_add os_quiet set_of_two (- 3) world_zero = Ok set_of_two world_zero \<and>
   pid_set_add os_quiet set_of_two 9 world_zero = Ok set_of_three world_zero \<and>
   pid_set_add os_quiet set_of_three 9 world_zero = Ok set_of_three world_zero"
proof -
  have wf: "pid_set_wf set_of_two"
    by (simp add: pid_set_wf_def set_of_two_def)
  have m: "8 \<in> set (elems set_of_two)"
    by (simp add: elems_def set_of_two_def)
  have a: "pid_set_add os_quiet set_of_two 9 world_zero = Ok set_of_three world_zero"
    by code_simp
  from pid_set_add_idempotent [OF wf, of 8 os_quiet world_zero] m
    pid_set_add_idempotent [OF wf, of "- 3" os_quiet world_zero]
    pid_set_add_idempotent [OF wf, of 9 os_quiet world_zero] a wf
  show ?thesis by simp
qed

text \<open>
  C7. On a set with distinct elements, \<open>pid_set_remove\<close> of a PID that is not an element
  returns the set as it is; of a PID that is an element, it makes the count one less
  and leaves exactly the other elements.
\<close>

theorem pid_set_remove_spec:
  assumes "pid_set_wf s" and "distinct (elems s)"
  shows "(p \<notin> set (elems s) \<longrightarrow> pid_set_remove s p = s) \<and>
         (p \<in> set (elems s) \<longrightarrow>
            count (pid_set_remove s p) + 1 = count s \<and>
            set (elems (pid_set_remove s p)) = set (elems s) - {p})"
  using remove_absent [OF assms(1), of p] remove_present(1,2,3) [OF assms, of p]
  by auto

theorem pid_set_remove_spec_witness:
  "pid_set_wf set_of_three \<and> distinct (elems set_of_three) \<and>
   pid_set_remove set_of_three 5 = set_of_three \<and>
   pid_set_remove set_of_three 7 = \<lparr>data = [9, 8, 9] @ replicate 13 0, count = 2, capacity = 16\<rparr> \<and>
   count (pid_set_remove set_of_three 7) + 1 = count set_of_three \<and>
   set (elems (pid_set_remove set_of_three 7)) = set (elems set_of_three) - {7}"
proof -
  have wf: "pid_set_wf set_of_three"
    by (simp add: pid_set_wf_def set_of_three_def)
  have d: "distinct (elems set_of_three)"
    by (simp add: elems_def set_of_three_def)
  have m: "5 \<notin> set (elems set_of_three)" "7 \<in> set (elems set_of_three)"
    by (simp_all add: elems_def set_of_three_def)
  have r: "pid_set_remove set_of_three 7 = \<lparr>data = [9, 8, 9] @ replicate 13 0, count = 2, capacity = 16\<rparr>"
    by code_simp
  from pid_set_remove_spec [OF wf d, of 5] pid_set_remove_spec [OF wf d, of 7] m wf d r
  show ?thesis by simp
qed

text \<open>
  C8. Whenever the call of \<open>proc_listchildpids\<close> in the loop of \<open>list_children\<close>
  returns a negative result with \<open>errno = ESRCH\<close>, the loop ends with the return value
  0, no children (\<open>NULL\<close>) and the count 0; so does \<open>list_children\<close> when that is its
  first call.
\<close>

theorem list_children_esrch:
  assumes "proc_listchildpids os pid b w = (r, b1, w1)"
    and "sint (pr_result r) < 0" and "pr_errno r = ESRCH"
  shows "list_children_loop os pid b w = Some (Ok (0, None, 0, b1) w1) \<and>
         (buf_capacity b \<noteq> 0 \<longrightarrow> list_children os pid b w = Ok (0, None, 0, b1) w1)"
proof -
  from assms have "list_children_loop os pid b w = Some (Ok (0, None, 0, b1) w1)"
    by (subst list_children_loop.simps) simp
  then show ?thesis by (simp add: list_children_def)
qed

theorem list_children_esrch_witness:
  "proc_listchildpids os_no_such 5 buffer_16 world_zero =
     (\<lparr>pr_result = - 1, pr_errno = ESRCH, pr_written = []\<rparr>, buffer_16, tick world_zero) \<and>
   sint (- 1 :: 32 word) < 0 \<and>
   list_children os_no_such 5 buffer_16 world_zero = Ok (0, None, 0, buffer_16) (tick world_zero) \<and>
   list_children os_no_such 5 child_buffer_zero world_zero =
     Ok (0, None, 0, buffer_16) (tick (tick world_zero))"
proof -
  let ?r = "\<lparr>pr_result = - 1, pr_errno = ESRCH, pr_written = []\<rparr>"
  have c: "proc_listchildpids os_no_such 5 buffer_16 world_zero = (?r, buffer_16, tick world_zero)"
    by code_simp
  have n: "sint (pr_result ?r) < 0" "pr_errno ?r = ESRCH" by simp_all
  have z: "buf_capacity buffer_16 \<noteq> 0" by (simp add: buffer_16_def)
  have l: "list_children os_no_such 5 child_buffer_zero world_zero =
     Ok (0, None, 0, buffer_16) (tick (tick world_zero))"
    by code_simp
  from list_children_esrch [OF c n] z c l n show ?thesis by simp
qed

text \<open>
  C9. The empty set that \<open>main\<close> starts from holds only positive, pairwise distinct
  PIDs within its array (\<open>pid_set_inv\<close>), and \<open>pid_set_add\<close>, \<open>pid_set_remove\<close>,
  \<open>pid_set_clear\<close> and \<open>pid_set_swap\<close> keep that; so all five sets of the polling
  engine and both sets of the event-driven engine have it at the end of every turn, and
  whenever \<open>main\<close> returns, no PID was printed twice.
\<close>

theorem pid_sets_positive_distinct:
  "pid_set_inv pid_set_zero \<and>
   (pid_set_inv s \<longrightarrow>
      (\<forall>os p w s' w'. pid_set_add os s p w = Ok s' w' \<longrightarrow> pid_set_inv s') \<and>
      (\<forall>p. pid_set_inv (pid_set_remove s p)) \<and> pid_set_inv (pid_set_clear s)) \<and>
   (pid_set_inv a \<and> pid_set_inv b \<longrightarrow>
      pid_set_inv (fst (pid_set_swap (a, b))) \<and> pid_set_inv (snd (pid_set_swap (a, b)))) \<and>
   (\<forall>fin st w. poll_run os child n = Ok (fin, st) w \<longrightarrow> poller_inv st) \<and>
   (\<forall>fin st w. kq_run os child d n = Ok (fin, st) w \<longrightarrow> tracker_inv st) \<and>
   (\<forall>c w. track_descendants_main os n argc child = Ok c w \<longrightarrow> distinct (printed w)) \<and>
   (\<forall>c w. track_kqueue_main os d n argc child kq = Ok c w \<longrightarrow> distinct (printed w))"
proof -
  have "distinct (printed w)" if "track_descendants_main os n argc child = Ok c w" for c w
    using poll_main_report [OF that]
    by (auto simp: poller_inv_def pid_set_inv_def dest!: poll_run_Ok(1))
  moreover have "distinct (printed w)" if "track_kqueue_main os d n argc child kq = Ok c w"
    for c w
    using kq_main_report [OF that]
    by (auto simp: tracker_inv_def pid_set_inv_def dest!: kq_run_Ok(1))
  ultimately show ?thesis
    by (auto simp: zero_inv remove_inv clear_inv dest: add_inv poll_run_Ok(1) kq_run_Ok(1))
qed

theorem pid_sets_positive_distinct_witness:
  "pid_set_inv set_of_two \<and>
   pid_set_add os_quiet set_of_two 9 world_zero = Ok set_of_three world_zero \<and>
   pid_set_inv set_of_three \<and> pid_set_inv (pid_set_remove set_of_two 7) \<and>
   pid_set_inv (pid_set_clear set_of_two) \<and>
   pid_set_inv (fst (pid_set_swap (set_of_two, set_of_three))) \<and>
   track_descendants_main os_family 9 2 100 =
     Ok 0 \<lparr>clock = 26, errlog = [], reaped = [100], printed = [100, 101]\<rparr> \<and>
   track_kqueue_main os_family 5 9 2 100 3 =
     Ok 0 \<lparr>clock = 11, errlog = [], reaped = [], printed = [100, 101]\<rparr> \<and>
   distinct [100, 101 :: pid]"
proof -
  have i2: "pid_set_inv set_of_two"
    by (simp add: pid_set_inv_def pid_set_wf_def elems_def set_of_two_def)
  have a: "pid_set_add os_quiet set_of_two 9 world_zero = Ok set_of_three world_zero"
    by code_simp
  have m1: "track_descendants_main os_family 9 2 100 =
     Ok 0 \<lparr>clock = 26, errlog = [], reaped = [100], printed = [100, 101]\<rparr>"
    by code_simp
  have m2: "track_kqueue_main os_family 5 9 2 100 3 =
     Ok 0 \<lparr>clock = 11, errlog = [], reaped = [], printed = [100, 101]\<rparr>"
    by code_simp
  note t = pid_sets_positive_distinct [of set_of_two set_of_two set_of_three os_family 100 9 5 2 3]
  from t i2 a have i3: "pid_set_inv set_of_three" by blast
  from t i2 i3 a m1 m2 show ?thesis by simp
qed



end
